theory Spec2Isabelle
  imports Complex_Main "HOL-Library.Word"
begin

section \<open>Value types shared by both transaction classes\<close>

text \<open>
  An entity id is a triple of non-negative integers (shard, realm, number). A timestamp is a
  pair (seconds, nanoseconds); the seconds are a 64-bit \<open>Long\<close>, whose \<open>add\<close>
  wraps around, hence a \<open>64 word\<close>. A transaction id is (payer account, valid start).
\<close>

type_synonym bytes = "8 word list"

record AccountId =
  shard :: nat
  realm :: nat
  num :: nat

type_synonym FileId = AccountId

record Timestamp =
  seconds :: "64 word"
  nanos :: nat

record TransactionId =
  accountId :: AccountId
  validStart :: Timestamp

text \<open>
  The response codes the resolver tells apart (\<open>ResponseCodeEnum\<close> is generated code that
  is not among the sources): the two pending codes, \<open>SUCCESS\<close>, and every other code by
  its number.
\<close>

datatype ResponseCode = OK | UNKNOWN | SUCCESS | OtherCode nat

text \<open>Every \<open>throw\<close> of the two classes, and the failures their collaborators report.\<close>

datatype error =
    TransactionIdNotSet
  | ContentsTooLong nat int
  | TransactionImmutable
  | AlreadyFrozen
  | TypeError
  | InvalidFileId
  | PrecheckRejected nat
  | ReceiptRejected nat
  | SignerFailed
  | ValueMissing
  | MissingNodeAccountId
  | TransactionBodyMissing
  | UnsupportedBodyCase nat
  | DeserializeFailed
  | QueryFailed nat
  | ConsensusTimeout
  | HederaError ResponseCode

section \<open>FileAppendTransaction (src/unnamed/part\_000)\<close>

subsection \<open>State\<close>

text \<open>
  The body that \<open>_makeTransactionData\<close> returns, and the request that the base class's
  \<open>_makeTransaction\<close> builds for one node from the current transaction id and that body.
\<close>

record FileAppendBody =
  fileID :: "FileId option"
  body_contents :: "bytes option"

record Request =
  req_node :: AccountId
  req_transactionId :: "TransactionId option"
  req_data :: FileAppendBody

text \<open>
  The fields of a \<open>FileAppendTransaction\<close>: its own (\<open>_fileId\<close>, \<open>_contents\<close>,
  \<open>_maxChunks\<close>, \<open>_startIndex\<close>, \<open>_transactionIds\<close>) and those of the base class that
  this file reads and writes (\<open>_transactionId\<close>, \<open>_nodeIds\<close>, \<open>_transactions\<close>,
  \<open>_nextGroupIndex\<close>, and the frozen flag behind \<open>_isFrozen\<close>).
\<close>

record FileAppendTransaction =
  fileId :: "FileId option"
  contents :: "bytes option"
  maxChunks :: int
  startIndex :: nat
  transactionIds :: "TransactionId list"
  transactionId :: "TransactionId option"
  nodeIds :: "AccountId list"
  transactions :: "Request list"
  nextGroupIndex :: nat
  frozen :: bool

text \<open>The object the constructor leaves when called without properties.\<close>

definition new_FileAppendTransaction :: FileAppendTransaction where
  "new_FileAppendTransaction =
     \<lparr>fileId = None, contents = None, maxChunks = 10, startIndex = 0, transactionIds = [],
      transactionId = None, nodeIds = [], transactions = [], nextGroupIndex = 0,
      frozen = False\<rparr>"

subsection \<open>Helpers of the base class\<close>

text \<open>
  Modelled from the spec: \<open>_isFrozen\<close> and \<open>_requireNotFrozen\<close> of the base class
  (\<open>../transaction/Transaction.js\<close> is not among the sources). The spec gives a transaction
  a frozen/unfrozen flag and says that mutation after freezing fails.
\<close>

definition isFrozen :: "FileAppendTransaction \<Rightarrow> bool" where
  "isFrozen st = frozen st"

definition requireNotFrozen :: "FileAppendTransaction \<Rightarrow> error + unit" where
  "requireNotFrozen st = (if isFrozen st then Inl TransactionImmutable else Inr ())"

subsection \<open>Setters\<close>

text \<open>
  \<open>setFileId\<close> accepts a \<open>FileId\<close> or a string; the parser \<open>FileId.fromString\<close> is not among
  the sources and is the parameter \<open>fromString\<close>. \<open>setContents\<close> accepts bytes or a string;
  the encoder \<open>utf8.encode\<close> is the parameter \<open>encode\<close>.
\<close>

datatype fileIdArg = OfFileId FileId | FileIdString string

datatype contentsArg = OfBytes bytes | ContentsString string

definition setFileId ::
  "(string \<Rightarrow> error + FileId) \<Rightarrow> fileIdArg \<Rightarrow> FileAppendTransaction \<Rightarrow> error + FileAppendTransaction"
where
  "setFileId fromString arg st =
     (case requireNotFrozen st of
        Inl e \<Rightarrow> Inl e
      | Inr _ \<Rightarrow>
          (case arg of
             OfFileId f \<Rightarrow> Inr (st\<lparr>fileId := Some f\<rparr>)
           | FileIdString s \<Rightarrow>
               (case fromString s of
                  Inl e \<Rightarrow> Inl e
                | Inr f \<Rightarrow> Inr (st\<lparr>fileId := Some f\<rparr>))))"

definition setContents ::
  "(string \<Rightarrow> bytes) \<Rightarrow> contentsArg \<Rightarrow> FileAppendTransaction \<Rightarrow> error + FileAppendTransaction"
where
  "setContents encode arg st =
     (case requireNotFrozen st of
        Inl e \<Rightarrow> Inl e
      | Inr _ \<Rightarrow>
          Inr (st\<lparr>contents := Some (case arg of OfBytes b \<Rightarrow> b | ContentsString s \<Rightarrow> encode s)\<rparr>))"

definition setMaxChunks :: "int \<Rightarrow> FileAppendTransaction \<Rightarrow> error + FileAppendTransaction" where
  "setMaxChunks m st =
     (case requireNotFrozen st of
        Inl e \<Rightarrow> Inl e
      | Inr _ \<Rightarrow> Inr (st\<lparr>maxChunks := m\<rparr>))"

subsection \<open>Building one request\<close>

text \<open>
  \<open>Uint8Array.subarray(begin, end)\<close> for non-negative indices: both are clamped to the
  length, and an empty range results when \<open>end\<close> is not beyond \<open>begin\<close>.
\<close>

definition subarray :: "'a list \<Rightarrow> nat \<Rightarrow> nat \<Rightarrow> 'a list" where
  "subarray xs b e =
     (let len = length xs; b' = min b len; e' = min e len
      in take (e' - b') (drop b' xs))"

text \<open>
  \<open>CHUNK_SIZE\<close> is imported from the base class's module, which is not among the sources;
  it is the parameter \<open>C\<close>, a positive number of bytes.
\<close>

definition makeTransactionData :: "nat \<Rightarrow> FileAppendTransaction \<Rightarrow> FileAppendBody" where
  "makeTransactionData C st =
     (let length' = (case contents st of Some cs \<Rightarrow> length cs | None \<Rightarrow> 0);
          endIndex = startIndex st + C;
          endIndex = (if endIndex > length' then length' else endIndex)
      in \<lparr>fileID = fileId st,
          body_contents =
            (case contents st of
               Some cs \<Rightarrow> Some (subarray cs (startIndex st) endIndex)
             | None \<Rightarrow> None)\<rparr>)"

text \<open>
  Modelled from the spec: \<open>_makeTransaction\<close> of the base class (not among the sources).
  The spec's frozen request holds the node identity, the transaction identity and the
  operation body; the body is what \<open>_makeTransactionData\<close> returns at that moment.
\<close>

definition makeTransaction :: "nat \<Rightarrow> AccountId \<Rightarrow> FileAppendTransaction \<Rightarrow> Request" where
  "makeTransaction C node st =
     \<lparr>req_node = node, req_transactionId = transactionId st,
      req_data = makeTransactionData C st\<rparr>"

subsection \<open>freezeWith\<close>

text \<open>The id of the next chunk: same payer, ten seconds later, nanoseconds kept.\<close>

definition nextId :: "TransactionId \<Rightarrow> TransactionId" where
  "nextId t =
     \<lparr>accountId = accountId t,
      validStart = \<lparr>seconds = seconds (validStart t) + 10, nanos = nanos (validStart t)\<rparr>\<rparr>"

text \<open>The inner loop: one request per node id, pushed onto \<open>_transactions\<close>.\<close>

definition pushRequests :: "nat \<Rightarrow> FileAppendTransaction \<Rightarrow> FileAppendTransaction" where
  "pushRequests C st =
     fold (\<lambda>node s. s\<lparr>transactions := transactions s @ [makeTransaction C node s]\<rparr>)
       (nodeIds st) st"

text \<open>
  The outer loop \<open>for (let chunk = 0; chunk < chunks; chunk++)\<close>, with the loop variable
  \<open>nextTransactionId\<close> as the argument \<open>next\<close>.
\<close>

function freezeLoop ::
  "nat \<Rightarrow> nat \<Rightarrow> nat \<Rightarrow> TransactionId \<Rightarrow> FileAppendTransaction \<Rightarrow> FileAppendTransaction"
where
  "freezeLoop C chunks chunk next st =
     (if chunk < chunks then
        let st1 = st\<lparr>startIndex := chunk * C\<rparr>;
            st2 = st1\<lparr>transactionId := Some next\<rparr>;
            st3 = st2\<lparr>transactionIds := transactionIds st2 @ [next]\<rparr>;
            st4 = pushRequests C st3
        in freezeLoop C chunks (chunk + 1) (nextId next) st4
      else st)"
  by pat_completeness auto
termination
  by (relation "measure (\<lambda>(C, chunks, chunk, next, st). chunks - chunk)") auto

declare freezeLoop.simps [simp del]

text \<open>
  \<open>freezeWith\<close>. The base class's \<open>freezeWith(client)\<close> is not among the sources: it is the
  parameter \<open>superFreeze\<close>, the client included, which fails or returns the updated object.
\<close>

definition freezeWith ::
  "nat \<Rightarrow> (FileAppendTransaction \<Rightarrow> error + FileAppendTransaction) \<Rightarrow>
   FileAppendTransaction \<Rightarrow> error + FileAppendTransaction"
where
  "freezeWith C superFreeze st0 =
     (case superFreeze st0 of
        Inl e \<Rightarrow> Inl e
      | Inr st \<Rightarrow>
          (case transactionId st of
             None \<Rightarrow> Inl TransactionIdNotSet
           | Some tid \<Rightarrow>
               let st = st\<lparr>transactionIds := [tid]\<rparr> in
               (case contents st of
                  None \<Rightarrow> Inr st
                | Some cs \<Rightarrow>
                    if length cs < C then Inr st
                    else
                      let chunks = (length cs + (C - 1)) div C in
                      if int chunks > maxChunks st then Inl (ContentsTooLong (length cs) (maxChunks st))
                      else
                        let st = st\<lparr>transactions := []\<rparr>;
                            st = freezeLoop C chunks 0 tid st;
                            st = st\<lparr>transactionId := Some tid\<rparr>
                        in Inr (st\<lparr>startIndex := 0\<rparr>))))"

subsection \<open>executeAll\<close>

text \<open>
  \<open>Math.floor(a / b)\<close> on two array lengths: the quotient when \<open>b\<close> is positive,
  \<open>Infinity\<close> for a positive length over zero, \<open>NaN\<close> for zero over zero. A comparison
  with \<open>NaN\<close> is false.
\<close>

datatype jsnum = Fin nat | Infinity | NaN

definition floor_div :: "nat \<Rightarrow> nat \<Rightarrow> jsnum" where
  "floor_div a b = (if b = 0 then (if a = 0 then NaN else Infinity) else Fin (a div b))"

fun js_less :: "nat \<Rightarrow> jsnum \<Rightarrow> bool" where
  "js_less i (Fin n) = (i < n)"
| "js_less i Infinity = True"
| "js_less i NaN = False"

text \<open>An array read: \<open>undefined\<close> out of range.\<close>

definition at_index :: "'a list \<Rightarrow> nat \<Rightarrow> 'a option" where
  "at_index xs i = (if i < length xs then Some (xs ! i) else None)"

text \<open>
  What \<open>executeAll\<close> uses of its client and of the base class, none of it among the
  sources: the operator's account, the base class's \<open>freezeWith\<close>, \<open>signWithOperator\<close>
  and \<open>execute\<close> (which read the object as it is at the call), and the response's
  \<open>getReceipt\<close>.
\<close>

record 'r Client =
  operatorAccountId :: "AccountId option"
  superFreezeWith :: "FileAppendTransaction \<Rightarrow> error + FileAppendTransaction"
  signWithOperator :: "FileAppendTransaction \<Rightarrow> error + FileAppendTransaction"
  superExecute :: "FileAppendTransaction \<Rightarrow> error + 'r"
  getReceipt :: "'r \<Rightarrow> error + unit"

text \<open>
  The network calls \<open>executeAll\<close> makes, in order: the dispatch of a group
  (\<open>super.execute(client)\<close>) with the index of the group and the transaction id in force
  for it, and the wait for a receipt (\<open>response.getReceipt(client)\<close>) with the response it
  is called on. Which transaction that receipt belongs to is decided by the response, whose
  class is not among the sources.
\<close>

datatype 'r event = Dispatched nat "TransactionId option" | ReceiptAwaited 'r

text \<open>
  The loop over \<open>_nextGroupIndex\<close>. It has no bound when the count is \<open>Infinity\<close>, so
  not returning is the value \<open>None\<close>. An exception leaves the loop with the error alone;
  the local \<open>responses\<close> is returned only when the loop ends.
\<close>

partial_function (option) executeLoop ::
  "'r Client \<Rightarrow> jsnum \<Rightarrow> FileAppendTransaction \<Rightarrow> 'r list \<Rightarrow> 'r event list \<Rightarrow>
   ((error + 'r list) \<times> 'r event list) option"
where
  "executeLoop client transactionCount st responses tr =
     (if js_less (nextGroupIndex st) transactionCount then
        let st1 = st\<lparr>transactionId := at_index (transactionIds st) (nextGroupIndex st)\<rparr>;
            tr1 = tr @ [Dispatched (nextGroupIndex st1) (transactionId st1)]
        in (case superExecute client st1 of
              Inl e \<Rightarrow> Some (Inl e, tr1)
            | Inr response \<Rightarrow>
                let tr2 = tr1 @ [ReceiptAwaited response]
                in (case getReceipt client response of
                      Inl e \<Rightarrow> Some (Inl e, tr2)
                    | Inr _ \<Rightarrow>
                        executeLoop client transactionCount
                          (st1\<lparr>nextGroupIndex := nextGroupIndex st1 + 1\<rparr>)
                          (responses @ [response]) tr2))
      else Some (Inr responses, tr))"

declare executeLoop.simps [code]

text \<open>
  \<open>executeAll\<close>, in its three steps: freeze the object if it is not frozen yet; sign with
  the operator when there is one and it is the payer of the transaction id; run the loop.
\<close>

definition freezeIfNeeded ::
  "nat \<Rightarrow> 'r Client \<Rightarrow> FileAppendTransaction \<Rightarrow> error + FileAppendTransaction"
where
  "freezeIfNeeded C client st =
     (if \<not> isFrozen st then freezeWith C (superFreezeWith client) st else Inr st)"

definition signIfOperator ::
  "'r Client \<Rightarrow> FileAppendTransaction \<Rightarrow> error + FileAppendTransaction"
where
  "signIfOperator client st =
     (case operatorAccountId client of
        None \<Rightarrow> Inr st
      | Some operator \<Rightarrow>
          (case transactionId st of
             None \<Rightarrow> Inl TypeError
           | Some tid \<Rightarrow>
               if operator = accountId tid then signWithOperator client st else Inr st))"

definition executeFrozen ::
  "'r Client \<Rightarrow> FileAppendTransaction \<Rightarrow> ((error + 'r list) \<times> 'r event list) option"
where
  "executeFrozen client st0 =
     (case signIfOperator client st0 of
        Inl e \<Rightarrow> Some (Inl e, [])
      | Inr st \<Rightarrow>
          executeLoop client
            (floor_div (length (transactions st)) (length (nodeIds st)))
            (st\<lparr>nextGroupIndex := 0\<rparr>) [] [])"

definition executeAll ::
  "nat \<Rightarrow> 'r Client \<Rightarrow> FileAppendTransaction \<Rightarrow> ((error + 'r list) \<times> 'r event list) option"
where
  "executeAll C client st0 =
     (case freezeIfNeeded C client st0 of
        Inl e \<Rightarrow> Some (Inl e, [])
      | Inr st \<Rightarrow> executeFrozen client st)"

text \<open>\<open>execute\<close>: the first element of what \<open>executeAll\<close> returns, \<open>undefined\<close> if none.\<close>

definition execute ::
  "nat \<Rightarrow> 'r Client \<Rightarrow> FileAppendTransaction \<Rightarrow> ((error + 'r option) \<times> 'r event list) option"
where
  "execute C client st0 =
     (case executeAll C client st0 of
        None \<Rightarrow> None
      | Some (Inl e, tr) \<Rightarrow> Some (Inl e, tr)
      | Some (Inr rs, tr) \<Rightarrow> Some (Inr (at_index rs 0), tr))"

text \<open>
  Modelled from the spec: the base class's \<open>freezeWith\<close> (not among the sources), for
  running the code on concrete objects. The spec's freeze takes the transaction from mutable
  to frozen and fails with \<open>AlreadyFrozen\<close> when called twice; the source's comment adds that
  the client, if available, gives a default transaction id and the nodes. The arguments are
  that default id and those nodes.
\<close>

definition baseFreezeWith ::
  "nat \<Rightarrow> TransactionId option \<Rightarrow> AccountId list \<Rightarrow>
   FileAppendTransaction \<Rightarrow> error + FileAppendTransaction"
where
  "baseFreezeWith C defaultId nodes st =
     (if isFrozen st then Inl AlreadyFrozen
      else
        let st1 = st\<lparr>transactionId := (case transactionId st of None \<Rightarrow> defaultId | Some t \<Rightarrow> Some t),
                      nodeIds := (if nodeIds st = [] then nodes else nodeIds st)\<rparr>
        in Inr (st1\<lparr>transactions := map (\<lambda>node. makeTransaction C node st1) (nodeIds st1),
                    frozen := True\<rparr>))"

section \<open>Transaction (src/src/Transaction.ts)\<close>

subsection \<open>Messages\<close>

text \<open>
  The generated protobuf messages, by the fields this class reads: the signed envelope
  (\<open>Transaction_\<close>: body bytes and an optional signature map), the body decoded from the
  body bytes, and the receipt. An optional field that is unset reads as \<open>None\<close>.
\<close>

record SignaturePair =
  pubkeyprefix :: bytes
  ed25519 :: bytes

record ProtoTransaction =
  bodybytes :: bytes
  sigmap :: "SignaturePair list option"

record TransactionID =
  accountID :: "AccountId option"
  transactionvalidstart :: "Timestamp option"

datatype DataCase =
    DATA_NOT_SET
  | CONTRACTCALL
  | CONTRACTCREATEINSTANCE
  | CONTRACTUPDATEINSTANCE
  | CONTRACTDELETEINSTANCE
  | CRYPTOADDCLAIM
  | CRYPTOCREATEACCOUNT
  | CRYPTODELETE
  | CRYPTODELETECLAIM
  | CRYPTOTRANSFER
  | CRYPTOUPDATEACCOUNT
  | FILEAPPEND
  | FILECREATE
  | FILEDELETE
  | FILEUPDATE
  | SYSTEMDELETE
  | SYSTEMUNDELETE
  | FREEZE
  | OtherDataCase nat

record TransactionBody =
  nodeaccountid :: "AccountId option"
  transactionid :: "TransactionID option"
  transactionvalidduration :: "int option"
  dataCase :: DataCase

record TransactionReceipt =
  status :: ResponseCode
  receipt_data :: nat

datatype Method =
    SmartContractService_contractCallMethod
  | SmartContractService_createContract
  | SmartContractService_updateContract
  | SmartContractService_deleteContract
  | CryptoService_addClaim
  | CryptoService_createAccount
  | CryptoService_cryptoDelete
  | CryptoService_deleteClaim
  | CryptoService_cryptoTransfer
  | CryptoService_updateAccount
  | FileService_appendContent
  | FileService_createFile
  | FileService_deleteFile
  | FileService_updateFile
  | SmartContractService_systemDelete
  | SmartContractService_systemUndelete
  | FreezeService_freeze

fun methodFromTxn :: "TransactionBody \<Rightarrow> error + Method" where
  "methodFromTxn body =
     (case dataCase body of
        CONTRACTCALL \<Rightarrow> Inr SmartContractService_contractCallMethod
      | CONTRACTCREATEINSTANCE \<Rightarrow> Inr SmartContractService_createContract
      | CONTRACTUPDATEINSTANCE \<Rightarrow> Inr SmartContractService_updateContract
      | CONTRACTDELETEINSTANCE \<Rightarrow> Inr SmartContractService_deleteContract
      | CRYPTOADDCLAIM \<Rightarrow> Inr CryptoService_addClaim
      | CRYPTOCREATEACCOUNT \<Rightarrow> Inr CryptoService_createAccount
      | CRYPTODELETE \<Rightarrow> Inr CryptoService_cryptoDelete
      | CRYPTODELETECLAIM \<Rightarrow> Inr CryptoService_deleteClaim
      | CRYPTOTRANSFER \<Rightarrow> Inr CryptoService_cryptoTransfer
      | CRYPTOUPDATEACCOUNT \<Rightarrow> Inr CryptoService_updateAccount
      | FILEAPPEND \<Rightarrow> Inr FileService_appendContent
      | FILECREATE \<Rightarrow> Inr FileService_createFile
      | FILEDELETE \<Rightarrow> Inr FileService_deleteFile
      | FILEUPDATE \<Rightarrow> Inr FileService_updateFile
      | SYSTEMDELETE \<Rightarrow> Inr SmartContractService_systemDelete
      | SYSTEMUNDELETE \<Rightarrow> Inr SmartContractService_systemUndelete
      | FREEZE \<Rightarrow> Inr FreezeService_freeze
      | DATA_NOT_SET \<Rightarrow> Inl TransactionBodyMissing
      | OtherDataCase n \<Rightarrow> Inl (UnsupportedBodyCase n))"

subsection \<open>The class\<close>

record Transaction =
  node :: AccountId
  inner :: ProtoTransaction
  txnId :: TransactionID
  validDurationSeconds :: int
  tx_method :: Method

text \<open>The constructor; \<open>orThrow\<close> fails on an unset field.\<close>

definition new_Transaction ::
  "AccountId \<Rightarrow> ProtoTransaction \<Rightarrow> TransactionBody \<Rightarrow> Method \<Rightarrow> error + Transaction"
where
  "new_Transaction node' inner' body method' =
     (case transactionid body of
        None \<Rightarrow> Inl ValueMissing
      | Some tid \<Rightarrow>
          (case transactionvalidduration body of
             None \<Rightarrow> Inl ValueMissing
           | Some secs \<Rightarrow>
               Inr \<lparr>node = node', inner = inner', txnId = tid,
                    validDurationSeconds = secs, tx_method = method'\<rparr>))"

text \<open>
  The protobuf codec is generated code that is not among the sources; it is a parameter:
  the envelope's \<open>serializeBinary\<close> and \<open>deserializeBinary\<close>, the body's
  \<open>deserializeBinary\<close>, and \<open>AccountId.fromProto\<close>.
\<close>

record Codec =
  serializeBinary :: "ProtoTransaction \<Rightarrow> bytes"
  deserializeBinary :: "bytes \<Rightarrow> error + ProtoTransaction"
  deserializeBody :: "bytes \<Rightarrow> error + TransactionBody"
  fromProto :: "AccountId \<Rightarrow> AccountId"

definition fromBytes :: "Codec \<Rightarrow> bytes \<Rightarrow> error + Transaction" where
  "fromBytes codec bs =
     (case deserializeBinary codec bs of
        Inl e \<Rightarrow> Inl e
      | Inr inner' \<Rightarrow>
          (case deserializeBody codec (bodybytes inner') of
             Inl e \<Rightarrow> Inl e
           | Inr body \<Rightarrow>
               (case nodeaccountid body of
                  None \<Rightarrow> Inl MissingNodeAccountId
                | Some n \<Rightarrow>
                    let nodeId = fromProto codec n in
                    (case methodFromTxn body of
                       Inl e \<Rightarrow> Inl e
                     | Inr method' \<Rightarrow> new_Transaction nodeId inner' body method'))))"

definition toBytes :: "Codec \<Rightarrow> Transaction \<Rightarrow> bytes" where
  "toBytes codec tx = serializeBinary codec (inner tx)"

subsection \<open>Signing\<close>

text \<open>
  \<open>_addSignature\<close> takes the envelope's signature map, or a new empty one, adds the pair
  at its end and stores the map back.
\<close>

definition addSignature :: "bytes \<Rightarrow> bytes \<Rightarrow> Transaction \<Rightarrow> Transaction" where
  "addSignature signature publicKey tx =
     (let sigPair = \<lparr>pubkeyprefix = publicKey, ed25519 = signature\<rparr>;
          sigMap = (case sigmap (inner tx) of Some m \<Rightarrow> m | None \<Rightarrow> []);
          sigMap = sigMap @ [sigPair]
      in tx\<lparr>inner := (inner tx)\<lparr>sigmap := Some sigMap\<rparr>\<rparr>)"

text \<open>
  A private key, by what \<open>sign\<close> uses of it: its signing function and the bytes of its
  public key. A signer is a caller's function, which may fail.
\<close>

record Ed25519PrivateKey =
  key_sign :: "bytes \<Rightarrow> bytes"
  key_publicKey :: bytes

definition sign :: "Ed25519PrivateKey \<Rightarrow> Transaction \<Rightarrow> Transaction" where
  "sign privateKey tx =
     addSignature (key_sign privateKey (bodybytes (inner tx))) (key_publicKey privateKey) tx"

definition signWith :: "bytes \<Rightarrow> (bytes \<Rightarrow> error + bytes) \<Rightarrow> Transaction \<Rightarrow> error + Transaction" where
  "signWith publicKey signer tx =
     (case signer (bodybytes (inner tx)) of
        Inl e \<Rightarrow> Inl e
      | Inr signature \<Rightarrow> Inr (addSignature signature publicKey tx))"

subsection \<open>JavaScript numbers\<close>

text \<open>
  The delay and the deadline of the receipt wait are computed on JavaScript numbers, which
  are IEEE 754 binary64 values: a real that is such a value, one of the two infinities, or
  \<open>NaN\<close>. The sign of a zero has no effect on a product, a sum, a floor or a
  comparison that follows, and is left out.
\<close>

datatype number = Finite real | PosInfinity | NegInfinity | NotANumber

text \<open>
  Rounding to the nearest value, ties to the even significand. A real \<open>a > 0\<close> with
  \<open>2^e <= a < 2^(e+1)\<close> is rounded to a multiple of \<open>2^(e-52)\<close>, where the exponent is
  not taken below \<open>-1022\<close> (the subnormal range); a result of \<open>2^1024\<close> or more is an
  infinity. The exponent is found by halving or doubling at most 1100 times: a real that
  needs more halvings is so large that its rounding is an infinity all the same.
\<close>

definition roundEven :: "real \<Rightarrow> int" where
  "roundEven q =
     (let n = \<lfloor>q\<rfloor>; f = q - of_int n
      in if f < 1 / 2 then n else if 1 / 2 < f then n + 1 else if even n then n else n + 1)"

fun scale :: "nat \<Rightarrow> int \<Rightarrow> real \<Rightarrow> int" where
  "scale 0 e a = e"
| "scale (Suc n) e a =
     (if 2 \<le> a then scale n (e + 1) (a / 2)
      else if a < 1 \<and> - 1022 < e then scale n (e - 1) (a * 2)
      else e)"

definition binade :: "real \<Rightarrow> int" where
  "binade a = scale 1100 0 a"

definition ulp :: "real \<Rightarrow> real" where
  "ulp a = 2 powi (binade a - 52)"

definition overflowBound :: real where
  "overflowBound = 2 ^ 1024"

definition fl :: "real \<Rightarrow> number" where
  "fl x =
     (if x = 0 then Finite 0
      else
        let a = \<bar>x\<bar>;
            y = of_int (roundEven (a / ulp a)) * ulp a
        in if overflowBound \<le> y then (if 0 < x then PosInfinity else NegInfinity)
           else Finite (sgn x * y))"

text \<open>
  The operators \<open>*\<close>, \<open>+\<close>, \<open>-\<close> and \<open>>\<close>, \<open>2 ** n\<close> for a count
  \<open>n\<close>, and \<open>Math.floor\<close>: the exact result, rounded; the floor of a number and a
  power of two within range need no rounding.
\<close>

fun negN :: "number \<Rightarrow> number" where
  "negN (Finite x) = Finite (- x)"
| "negN PosInfinity = NegInfinity"
| "negN NegInfinity = PosInfinity"
| "negN NotANumber = NotANumber"

fun signOf :: "number \<Rightarrow> int" where
  "signOf (Finite x) = (if x = 0 then 0 else if 0 < x then 1 else - 1)"
| "signOf PosInfinity = 1"
| "signOf NegInfinity = - 1"
| "signOf NotANumber = 0"

fun mulN :: "number \<Rightarrow> number \<Rightarrow> number" where
  "mulN NotANumber b = NotANumber"
| "mulN a NotANumber = NotANumber"
| "mulN (Finite x) (Finite y) = fl (x * y)"
| "mulN a b =
     (let s = signOf a * signOf b
      in if s = 0 then NotANumber else if 0 < s then PosInfinity else NegInfinity)"

fun addN :: "number \<Rightarrow> number \<Rightarrow> number" where
  "addN NotANumber b = NotANumber"
| "addN a NotANumber = NotANumber"
| "addN (Finite x) (Finite y) = fl (x + y)"
| "addN PosInfinity NegInfinity = NotANumber"
| "addN NegInfinity PosInfinity = NotANumber"
| "addN PosInfinity b = PosInfinity"
| "addN NegInfinity b = NegInfinity"
| "addN (Finite x) b = b"

definition subN :: "number \<Rightarrow> number \<Rightarrow> number" where
  "subN a b = addN a (negN b)"

definition pow2 :: "nat \<Rightarrow> number" where
  "pow2 n = (if n < 1024 then Finite (2 ^ n) else PosInfinity)"

fun floorN :: "number \<Rightarrow> number" where
  "floorN (Finite x) = Finite (of_int \<lfloor>x\<rfloor>)"
| "floorN a = a"

fun gtN :: "number \<Rightarrow> number \<Rightarrow> bool" where
  "gtN NotANumber b = False"
| "gtN a NotANumber = False"
| "gtN (Finite x) (Finite y) = (y < x)"
| "gtN PosInfinity PosInfinity = False"
| "gtN PosInfinity b = True"
| "gtN a PosInfinity = False"
| "gtN NegInfinity b = False"
| "gtN a NegInfinity = True"

subsection \<open>Waiting for the receipt\<close>

definition receiptInitialDelayMs :: real where
  "receiptInitialDelayMs = 1000"

definition receiptRetryDelayMs :: real where
  "receiptRetryDelayMs = 500"

text \<open>
  What the loop observes at each attempt: the result of \<open>_getReceipt\<close> (a network query:
  a receipt, or a failure with its code), the value of \<open>Math.random()\<close> and the value of
  \<open>Date.now()\<close>. The two values are numbers. The environment names the first by a real
  and the second by a whole number of milliseconds, and the loop reads the number nearest to
  what is named, as JavaScript reads a literal; a real that is a number stands for itself.
\<close>

record PollEnv =
  getReceiptAt :: "nat \<Rightarrow> nat + TransactionReceipt"
  randomAt :: "nat \<Rightarrow> real"
  nowAt :: "nat \<Rightarrow> int"

datatype wait_event = Slept number | Polled nat

text \<open>
  The delay \<open>Math.floor(receiptRetryDelayMs * Math.random() * (2 ** attempt - 1))\<close>:
  the two products are taken from left to right and each is rounded, so the delay is not
  always the floor of the exact product.
\<close>

definition retryDelay :: "PollEnv \<Rightarrow> nat \<Rightarrow> number" where
  "retryDelay env attempt =
     floorN (mulN (mulN (Finite receiptRetryDelayMs) (fl (randomAt env attempt)))
                  (subN (pow2 attempt) (Finite 1)))"

text \<open>
  The loop \<open>for (let attempt = 0; ; attempt += 1)\<close>. It has no exit condition of its own,
  so not returning is the value \<open>None\<close>. The result comes with the sleeps and polls made.
\<close>

partial_function (option) waitLoop ::
  "PollEnv \<Rightarrow> number \<Rightarrow> nat \<Rightarrow> wait_event list \<Rightarrow>
   ((error + TransactionReceipt) \<times> wait_event list) option"
where
  "waitLoop env validUntilMs attempt tr =
     (case getReceiptAt env attempt of
        Inl code \<Rightarrow> Some (Inl (QueryFailed code), tr @ [Polled attempt])
      | Inr receipt \<Rightarrow>
          if status receipt \<in> {UNKNOWN, OK} then
            let delay = retryDelay env attempt in
            if gtN (addN (fl (of_int (nowAt env attempt))) delay) validUntilMs
            then Some (Inl ConsensusTimeout, tr @ [Polled attempt])
            else waitLoop env validUntilMs (attempt + 1) (tr @ [Polled attempt, Slept delay])
          else if status receipt \<noteq> SUCCESS
          then Some (Inl (HederaError (status receipt)), tr @ [Polled attempt])
          else Some (Inr receipt, tr @ [Polled attempt]))"

declare waitLoop.simps [code]

text \<open>
  \<open>_waitForReceipt\<close>; \<open>timestampToMs\<close> is not among the sources and is the parameter
  \<open>toMs\<close>, which returns a number.
\<close>

definition waitForReceipt ::
  "(Timestamp \<Rightarrow> number) \<Rightarrow> PollEnv \<Rightarrow> Transaction \<Rightarrow>
   ((error + TransactionReceipt) \<times> wait_event list) option"
where
  "waitForReceipt toMs env tx =
     (case transactionvalidstart (txnId tx) of
        None \<Rightarrow> Some (Inl ValueMissing, [])
      | Some ts \<Rightarrow>
          let validStartMs = toMs ts;
              validUntilMs = addN validStartMs (Finite 120000)
          in waitLoop env validUntilMs 0 [Slept (Finite receiptInitialDelayMs)])"

subsection \<open>The envelope as an object: toProto\<close>

text \<open>
  \<open>toProto\<close> is about object identity, so here the envelope is an object in a store.
  The store is the list of the objects created so far and a reference is a position in it;
  a new object goes to the end. The objects are those an envelope consists of: a byte
  array, a signature pair (references to the two byte arrays), a signature map (references
  to its pairs) and the envelope itself (a reference to the body bytes and, when set, one
  to the signature map).
\<close>

type_synonym ref = nat

datatype obj =
    BytesObj bytes
  | PairObj ref ref
  | SigMapObj "ref list"
  | EnvelopeObj ref "ref option"

type_synonym heap = "obj list"

definition cells :: "heap \<Rightarrow> ref \<Rightarrow> obj option" where
  "cells h r = at_index h r"

definition alloc :: "heap \<Rightarrow> obj \<Rightarrow> ref \<times> heap" where
  "alloc h ob = (length h, h @ [ob])"

text \<open>The message that an object and the objects below it hold, \<open>None\<close> if one is missing.\<close>

definition readBytes :: "heap \<Rightarrow> ref \<Rightarrow> bytes option" where
  "readBytes h r = (case cells h r of Some (BytesObj b) \<Rightarrow> Some b | _ \<Rightarrow> None)"

definition readPair :: "heap \<Rightarrow> ref \<Rightarrow> SignaturePair option" where
  "readPair h r =
     (case cells h r of
        Some (PairObj p s) \<Rightarrow>
          (case readBytes h p of
             None \<Rightarrow> None
           | Some pb \<Rightarrow>
               (case readBytes h s of
                  None \<Rightarrow> None
                | Some sb \<Rightarrow> Some \<lparr>pubkeyprefix = pb, ed25519 = sb\<rparr>))
      | _ \<Rightarrow> None)"

definition readSigMap :: "heap \<Rightarrow> ref \<Rightarrow> SignaturePair list option" where
  "readSigMap h r =
     (case cells h r of Some (SigMapObj ps) \<Rightarrow> those (map (readPair h) ps) | _ \<Rightarrow> None)"

definition readEnvelope :: "heap \<Rightarrow> ref \<Rightarrow> ProtoTransaction option" where
  "readEnvelope h r =
     (case cells h r of
        Some (EnvelopeObj b m) \<Rightarrow>
          (case readBytes h b of
             None \<Rightarrow> None
           | Some bb \<Rightarrow>
               (case m of
                  None \<Rightarrow> Some \<lparr>bodybytes = bb, sigmap = None\<rparr>
                | Some mr \<Rightarrow>
                    (case readSigMap h mr of
                       None \<Rightarrow> None
                     | Some ps \<Rightarrow> Some \<lparr>bodybytes = bb, sigmap = Some ps\<rparr>)))
      | _ \<Rightarrow> None)"

text \<open>
  \<open>Message.cloneMessage\<close> belongs to the protobuf runtime library, which is not among the
  sources. It is modelled as that library documents it, as a deep copy: a new object for
  the message and for every object below it, level by level.
\<close>

definition cloneBytes :: "heap \<Rightarrow> ref \<Rightarrow> (ref \<times> heap) option" where
  "cloneBytes h r =
     (case cells h r of Some (BytesObj b) \<Rightarrow> Some (alloc h (BytesObj b)) | _ \<Rightarrow> None)"

definition clonePair :: "heap \<Rightarrow> ref \<Rightarrow> (ref \<times> heap) option" where
  "clonePair h r =
     (case cells h r of
        Some (PairObj p s) \<Rightarrow>
          (case cloneBytes h p of
             None \<Rightarrow> None
           | Some (p', h1) \<Rightarrow>
               (case cloneBytes h1 s of
                  None \<Rightarrow> None
                | Some (s', h2) \<Rightarrow> Some (alloc h2 (PairObj p' s'))))
      | _ \<Rightarrow> None)"

fun clonePairs :: "heap \<Rightarrow> ref list \<Rightarrow> (ref list \<times> heap) option" where
  "clonePairs h [] = Some ([], h)"
| "clonePairs h (r # rs) =
     (case clonePair h r of
        None \<Rightarrow> None
      | Some (r', h1) \<Rightarrow>
          (case clonePairs h1 rs of
             None \<Rightarrow> None
           | Some (rs', h2) \<Rightarrow> Some (r' # rs', h2)))"

definition cloneSigMap :: "heap \<Rightarrow> ref \<Rightarrow> (ref \<times> heap) option" where
  "cloneSigMap h r =
     (case cells h r of
        Some (SigMapObj ps) \<Rightarrow>
          (case clonePairs h ps of
             None \<Rightarrow> None
           | Some (ps', h1) \<Rightarrow> Some (alloc h1 (SigMapObj ps')))
      | _ \<Rightarrow> None)"

definition cloneMessage :: "heap \<Rightarrow> ref \<Rightarrow> (ref \<times> heap) option" where
  "cloneMessage h r =
     (case cells h r of
        Some (EnvelopeObj b m) \<Rightarrow>
          (case cloneBytes h b of
             None \<Rightarrow> None
           | Some (b', h1) \<Rightarrow>
               (case m of
                  None \<Rightarrow> Some (alloc h1 (EnvelopeObj b' None))
                | Some mr \<Rightarrow>
                    (case cloneSigMap h1 mr of
                       None \<Rightarrow> None
                     | Some (mr', h2) \<Rightarrow> Some (alloc h2 (EnvelopeObj b' (Some mr'))))))
      | _ \<Rightarrow> None)"

text \<open>
  The transaction as an object: \<open>_inner\<close> is a reference to the envelope. \<open>toProto\<close>
  returns the clone of the envelope, \<open>toBytes\<close> serializes the envelope as it is in the
  store.
\<close>

record TransactionObject =
  this_node :: AccountId
  this_inner :: ref
  this_txnId :: TransactionID
  this_validDurationSeconds :: int
  this_method :: Method

definition toProto :: "heap \<Rightarrow> TransactionObject \<Rightarrow> (ref \<times> heap) option" where
  "toProto h this = cloneMessage h (this_inner this)"

definition toBytesAt :: "Codec \<Rightarrow> heap \<Rightarrow> TransactionObject \<Rightarrow> bytes option" where
  "toBytesAt codec h this =
     map_option (serializeBinary codec) (readEnvelope h (this_inner this))"

section \<open>Notions used in the statements\<close>

subsection \<open>Chunking\<close>

text \<open>The chunk count as \<open>freezeWith\<close> computes it, for a payload of \<open>L\<close> bytes.\<close>

definition chunkCount :: "nat \<Rightarrow> nat \<Rightarrow> nat" where
  "chunkCount L C = (L + (C - 1)) div C"

text \<open>Whether a result of freezing is the error for a payload that needs too many chunks.\<close>

definition payloadTooLarge :: "error + 'a \<Rightarrow> bool" where
  "payloadTooLarge r = (case r of Inl (ContentsTooLong _ _) \<Rightarrow> True | _ \<Rightarrow> False)"

text \<open>The half-open range \<open>[a, b)\<close> of a byte array, in the spec's words.\<close>

definition byteRange :: "'a list \<Rightarrow> nat \<Rightarrow> nat \<Rightarrow> 'a list" where
  "byteRange xs a b = map (\<lambda>k. xs ! k) [a..<b]"

text \<open>The request built for node \<open>nd\<close> in chunk \<open>i\<close> under transaction id \<open>t\<close>.\<close>

definition chunkRequest ::
  "nat \<Rightarrow> FileId option \<Rightarrow> bytes \<Rightarrow> nat \<Rightarrow> TransactionId \<Rightarrow> AccountId \<Rightarrow> Request"
where
  "chunkRequest C fid cs i t nd =
     \<lparr>req_node = nd, req_transactionId = Some t,
      req_data = \<lparr>fileID = fid,
                  body_contents = Some (subarray cs (i * C) (min (i * C + C) (length cs)))\<rparr>\<rparr>"

subsection \<open>Execution\<close>

text \<open>
  The object as the base class's \<open>execute\<close> sees it when \<open>executeAll\<close> dispatches group
  \<open>i\<close>, and the two network calls of that group when the dispatch returns the response
  \<open>r\<close>: the dispatch, then the wait for the receipt of \<open>r\<close>.
\<close>

definition groupState :: "FileAppendTransaction \<Rightarrow> nat \<Rightarrow> FileAppendTransaction" where
  "groupState st i = st\<lparr>transactionId := at_index (transactionIds st) i, nextGroupIndex := i\<rparr>"

definition groupEvents :: "FileAppendTransaction \<Rightarrow> nat \<Rightarrow> 'r \<Rightarrow> 'r event list" where
  "groupEvents st i r = [Dispatched i (at_index (transactionIds st) i), ReceiptAwaited r]"

text \<open>The responses a call returned, if it returned.\<close>

definition returned :: "((error + 'r list) \<times> 'r event list) option \<Rightarrow> 'r list option" where
  "returned out = (case out of Some (Inr rs, _) \<Rightarrow> Some rs | _ \<Rightarrow> None)"

subsection \<open>Polling\<close>

text \<open>
  At attempt \<open>j\<close>: the poll returns a receipt whose status is pending; the time of the
  check plus the delay computed for this attempt is beyond the deadline.
\<close>

definition pending :: "PollEnv \<Rightarrow> nat \<Rightarrow> bool" where
  "pending env j =
     (case getReceiptAt env j of Inl _ \<Rightarrow> False | Inr r \<Rightarrow> status r \<in> {UNKNOWN, OK})"

definition expired :: "PollEnv \<Rightarrow> number \<Rightarrow> nat \<Rightarrow> bool" where
  "expired env deadline j =
     gtN (addN (fl (of_int (nowAt env j))) (retryDelay env j)) deadline"

text \<open>A timeout is reached from attempt \<open>a\<close>: pending and in time up to a later attempt \<open>k\<close>.\<close>

definition timesOutFrom :: "PollEnv \<Rightarrow> number \<Rightarrow> nat \<Rightarrow> bool" where
  "timesOutFrom env d a \<longleftrightarrow>
     (\<exists>k\<ge>a. (\<forall>j. a \<le> j \<and> j < k \<longrightarrow> pending env j \<and> \<not> expired env d j) \<and>
            pending env k \<and> expired env d k)"

text \<open>The sleeps and polls before attempt \<open>k\<close> when every earlier attempt was retried.\<close>

definition pollEvents :: "PollEnv \<Rightarrow> nat \<Rightarrow> wait_event list" where
  "pollEvents env k =
     Slept (Finite receiptInitialDelayMs) #
     concat (map (\<lambda>j. [Polled j, Slept (retryDelay env j)]) [0..<k])"

subsection \<open>Decoding and signing\<close>

text \<open>
  A transaction agrees with its own envelope: the body decoded from the envelope's body
  bytes names the transaction's node, id and valid duration, and its data case selects the
  transaction's method. Both callers of the constructor build such transactions.
\<close>

definition builtFrom :: "Codec \<Rightarrow> Transaction \<Rightarrow> bool" where
  "builtFrom codec tx =
     (case deserializeBody codec (bodybytes (inner tx)) of
        Inl _ \<Rightarrow> False
      | Inr body \<Rightarrow>
          (case nodeaccountid body of None \<Rightarrow> False | Some n \<Rightarrow> fromProto codec n = node tx) \<and>
          transactionid body = Some (txnId tx) \<and>
          transactionvalidduration body = Some (validDurationSeconds tx) \<and>
          methodFromTxn body = Inr (tx_method tx))"

text \<open>The signature pairs of a transaction, none when the envelope has no signature map.\<close>

definition sigPairs :: "Transaction \<Rightarrow> SignaturePair list" where
  "sigPairs tx = (case sigmap (inner tx) of None \<Rightarrow> [] | Some m \<Rightarrow> m)"

subsection \<open>Objects in the store\<close>

text \<open>The references an object consists of: its own and those below it.\<close>

definition fpPair :: "heap \<Rightarrow> ref \<Rightarrow> ref set" where
  "fpPair h r = insert r (case cells h r of Some (PairObj p s) \<Rightarrow> {p, s} | _ \<Rightarrow> {})"

definition fpSigMap :: "heap \<Rightarrow> ref \<Rightarrow> ref set" where
  "fpSigMap h r =
     insert r (case cells h r of
                 Some (SigMapObj ps) \<Rightarrow> \<Union> (set (map (fpPair h) ps))
               | _ \<Rightarrow> {})"

definition fpEnvelope :: "heap \<Rightarrow> ref \<Rightarrow> ref set" where
  "fpEnvelope h r =
     insert r (case cells h r of
                 Some (EnvelopeObj b m) \<Rightarrow>
                   insert b (case m of None \<Rightarrow> {} | Some mr \<Rightarrow> fpSigMap h mr)
               | _ \<Rightarrow> {})"

text \<open>
  A store extends another when it still has every object of the other, unchanged and at
  the same reference; what comes after them is free.
\<close>

definition extends :: "heap \<Rightarrow> heap \<Rightarrow> bool" where
  "extends h h' \<longleftrightarrow> take (length h) h' = h"

section \<open>Concrete objects\<close>

definition payer :: AccountId where
  "payer = \<lparr>shard = 0, realm = 0, num = 1001\<rparr>"

definition node3 :: AccountId where
  "node3 = \<lparr>shard = 0, realm = 0, num = 3\<rparr>"

definition t0 :: TransactionId where
  "t0 = \<lparr>accountId = payer, validStart = \<lparr>seconds = 1600000000, nanos = 500\<rparr>\<rparr>"

text \<open>An unfrozen file append with the given contents and maximum number of chunks.\<close>

definition exampleAppend :: "bytes \<Rightarrow> int \<Rightarrow> FileAppendTransaction" where
  "exampleAppend cs m = new_FileAppendTransaction\<lparr>contents := Some cs, maxChunks := m\<rparr>"

text \<open>
  A client without operator whose network answers the dispatch of group \<open>i\<close> with
  \<open>dispatch i\<close> and confirms every receipt; freezing gives the id \<open>t0\<close> and one node.
\<close>

definition exampleClient :: "nat \<Rightarrow> (nat \<Rightarrow> error + nat) \<Rightarrow> nat Client" where
  "exampleClient C dispatch =
     \<lparr>operatorAccountId = None,
      superFreezeWith = baseFreezeWith C (Some t0) [node3],
      signWithOperator = Inr,
      superExecute = (\<lambda>st. dispatch (nextGroupIndex st)),
      getReceipt = (\<lambda>r. Inr ())\<rparr>"

text \<open>A dispatch that the node rejects at group 2.\<close>

definition rejectThird :: "nat \<Rightarrow> error + nat" where
  "rejectThird i = (if i = 2 then Inl (PrecheckRejected 7) else Inr i)"

text \<open>
  A transaction of the other class, not signed yet and valid for 5 seconds from time 0,
  with a codec that is enough for it: the envelope is its body bytes, and one body is
  known.
\<close>

definition exampleBody :: TransactionBody where
  "exampleBody =
     \<lparr>nodeaccountid = Some node3,
      transactionid = Some \<lparr>accountID = Some payer,
                            transactionvalidstart = Some \<lparr>seconds = 0, nanos = 0\<rparr>\<rparr>,
      transactionvalidduration = Some 5,
      dataCase = FILEAPPEND\<rparr>"

definition exampleTransaction :: Transaction where
  "exampleTransaction =
     \<lparr>node = node3, inner = \<lparr>bodybytes = [1], sigmap = None\<rparr>,
      txnId = \<lparr>accountID = Some payer,
                transactionvalidstart = Some \<lparr>seconds = 0, nanos = 0\<rparr>\<rparr>,
      validDurationSeconds = 5, tx_method = FileService_appendContent\<rparr>"

definition exampleCodec :: Codec where
  "exampleCodec =
     \<lparr>serializeBinary = bodybytes,
      deserializeBinary = (\<lambda>bs. Inr \<lparr>bodybytes = bs, sigmap = None\<rparr>),
      deserializeBody = (\<lambda>bs. if bs = [1] then Inr exampleBody else Inl DeserializeFailed),
      fromProto = (\<lambda>a. a)\<rparr>"

definition exampleKey :: Ed25519PrivateKey where
  "exampleKey = \<lparr>key_sign = rev, key_publicKey = [9]\<rparr>"

text \<open>Milliseconds of a timestamp whose seconds are not negative.\<close>

definition exampleToMs :: "Timestamp \<Rightarrow> number" where
  "exampleToMs ts = Finite (of_int (int (unat (seconds ts)) * 1000 + int (nanos ts div 1000000)))"

text \<open>
  A network where the receipt is pending at the first poll and final at the second, with
  the first check made \<open>now\<close> milliseconds after time 0.
\<close>

definition examplePolls :: "ResponseCode \<Rightarrow> int \<Rightarrow> PollEnv" where
  "examplePolls final now =
     \<lparr>getReceiptAt = (\<lambda>a. Inr \<lparr>status = (if a = 0 then UNKNOWN else final), receipt_data = 0\<rparr>),
      randomAt = (\<lambda>a. 1 / 2),
      nowAt = (\<lambda>a. now + 1000 * int a)\<rparr>"

text \<open>
  A network where the receipt stays pending and \<open>Math.random()\<close> returns the number
  written \<open>0.24\<close>; the first check is made 2000 ms after time 0 and the later ones
  119881 ms after it.
\<close>

definition roundingPolls :: PollEnv where
  "roundingPolls =
     \<lparr>getReceiptAt = (\<lambda>a. Inr \<lparr>status = UNKNOWN, receipt_data = 0\<rparr>),
      randomAt = (\<lambda>a. 24 / 100),
      nowAt = (\<lambda>a. if a = 0 then 2000 else 119881)\<rparr>"

text \<open>
  A store with one envelope at reference 5, signed once, and the transaction object that
  owns it; and what a caller does to a message it holds at \<open>r\<close> when it replaces the
  body bytes by a new array and clears the signature map.
\<close>

definition exampleHeap :: heap where
  "exampleHeap =
     [BytesObj [1], BytesObj [9], BytesObj [7], PairObj 1 2, SigMapObj [3],
      EnvelopeObj 0 (Some 4)]"

definition exampleObject :: TransactionObject where
  "exampleObject =
     \<lparr>this_node = node3, this_inner = 5,
      this_txnId = \<lparr>accountID = Some payer,
                     transactionvalidstart = Some \<lparr>seconds = 0, nanos = 0\<rparr>\<rparr>,
      this_validDurationSeconds = 5, this_method = FileService_appendContent\<rparr>"

definition overwritten :: "heap \<Rightarrow> ref \<Rightarrow> heap" where
  "overwritten h r = (case alloc h (BytesObj [255]) of (b, h1) \<Rightarrow> h1[r := EnvelopeObj b None])"

section \<open>Freezing and chunking\<close>

subsection \<open>The loop of freezeWith\<close>

text \<open>
  What the two loops of \<open>freezeWith\<close> leave: the fields they do not touch, the list of
  transaction ids, and the requests, chunk after chunk and node after node.
\<close>

lemma fold_push:
  "fold (\<lambda>node s. s\<lparr>transactions := transactions s @ [makeTransaction C node s]\<rparr>) ns st =
   st\<lparr>transactions := transactions st @ map (\<lambda>node. makeTransaction C node st) ns\<rparr>"
proof (induction ns arbitrary: st)
  case Nil
  show ?case by simp
next
  case (Cons n ns)
  have eq: "\<And>m x. makeTransaction C m (st\<lparr>transactions := x\<rparr>) = makeTransaction C m st"
    by (simp add: makeTransaction_def makeTransactionData_def Let_def split: option.splits)
  show ?case by (simp add: Cons.IH eq)
qed

lemma pushRequests_eq:
  "pushRequests C st =
   st\<lparr>transactions := transactions st @ map (\<lambda>node. makeTransaction C node st) (nodeIds st)\<rparr>"
  unfolding pushRequests_def by (rule fold_push)

lemma makeTransaction_upd [simp]:
  "makeTransaction C nd (st\<lparr>transactions := x\<rparr>) = makeTransaction C nd st"
  "makeTransaction C nd (st\<lparr>transactionIds := y\<rparr>) = makeTransaction C nd st"
  by (simp_all add: makeTransaction_def makeTransactionData_def Let_def split: option.splits)

lemma makeTransaction_chunk:
  "contents st = Some cs \<Longrightarrow> startIndex st = i * C \<Longrightarrow> transactionId st = Some t \<Longrightarrow>
   makeTransaction C nd st = chunkRequest C (fileId st) cs i t nd"
  by (simp add: makeTransaction_def makeTransactionData_def chunkRequest_def Let_def min_def)

lemma map_upt_Suc_shift: "map f [0..<Suc d] = f 0 # map (\<lambda>i. f (Suc i)) [0..<d]"
proof -
  have "[0..<Suc d] = 0 # map Suc [0..<d]"
    by (simp add: upt_conv_Cons map_Suc_upt del: upt_Suc)
  then show ?thesis by (simp add: o_def del: upt_Suc)
qed

lemma freezeLoop_frame:
  "nodeIds (freezeLoop C chunks chunk next st) = nodeIds st \<and>
   contents (freezeLoop C chunks chunk next st) = contents st \<and>
   fileId (freezeLoop C chunks chunk next st) = fileId st \<and>
   maxChunks (freezeLoop C chunks chunk next st) = maxChunks st \<and>
   nextGroupIndex (freezeLoop C chunks chunk next st) = nextGroupIndex st \<and>
   frozen (freezeLoop C chunks chunk next st) = frozen st"
proof (induction C chunks chunk "next" st rule: freezeLoop.induct)
  case (1 C chunks chunk nxt st)
  show ?case
  proof (cases "chunk < chunks")
    case True
    with 1 show ?thesis
      by (subst (1 2 3 4 5 6) freezeLoop.simps) (simp add: Let_def pushRequests_eq)
  next
    case False
    then show ?thesis by (simp add: freezeLoop.simps)
  qed
qed

lemma freezeLoop_transactionIds:
  "transactionIds (freezeLoop C chunks chunk next st) =
   transactionIds st @ map (\<lambda>i. (nextId ^^ i) next) [0..<chunks - chunk]"
proof (induction C chunks chunk "next" st rule: freezeLoop.induct)
  case (1 C chunks chunk nxt st)
  show ?case
  proof (cases "chunk < chunks")
    case True
    then obtain d where d: "chunks - chunk = Suc d" "chunks - (chunk + 1) = d"
      by (metis Suc_diff_Suc Suc_eq_plus1 diff_diff_left)
    have "map (\<lambda>i. (nextId ^^ i) nxt) [0..<Suc d] = nxt # map (\<lambda>i. (nextId ^^ i) (nextId nxt)) [0..<d]"
      by (simp add: map_upt_Suc_shift funpow_swap1 del: upt_Suc)
    with True 1 d show ?thesis
      by (subst freezeLoop.simps) (simp add: Let_def pushRequests_eq del: upt_Suc)
  next
    case False
    then show ?thesis by (simp add: freezeLoop.simps)
  qed
qed

lemma freezeLoop_transactions:
  "contents st = Some cs \<Longrightarrow>
   transactions (freezeLoop C chunks chunk next st) =
   transactions st @
   concat (map (\<lambda>i. map (chunkRequest C (fileId st) cs (chunk + i) ((nextId ^^ i) next)) (nodeIds st))
                [0..<chunks - chunk])"
proof (induction C chunks chunk "next" st rule: freezeLoop.induct)
  case (1 C chunks chunk nxt st)
  show ?case
  proof (cases "chunk < chunks")
    case True
    then obtain d where d: "chunks - chunk = Suc d" "chunks - (chunk + 1) = d"
      by (metis Suc_diff_Suc Suc_eq_plus1 diff_diff_left)
    let ?st3 = "st\<lparr>startIndex := chunk * C, transactionId := Some nxt,
                   transactionIds := transactionIds st @ [nxt]\<rparr>"
    have mk: "\<And>nd. makeTransaction C nd (st\<lparr>startIndex := chunk * C, transactionId := Some nxt\<rparr>) =
                   chunkRequest C (fileId st) cs chunk nxt nd"
      using "1.prems" by (simp add: makeTransaction_chunk [where i = chunk and cs = cs and t = nxt])
    have st4: "pushRequests C ?st3 =
               ?st3\<lparr>transactions := transactions st @
                        map (chunkRequest C (fileId st) cs chunk nxt) (nodeIds st)\<rparr>"
      by (simp add: pushRequests_eq mk)
    have IH: "transactions (freezeLoop C chunks (chunk + 1) (nextId nxt) (pushRequests C ?st3)) =
              transactions (pushRequests C ?st3) @
              concat (map (\<lambda>i. map (chunkRequest C (fileId (pushRequests C ?st3)) cs (chunk + 1 + i)
                                       ((nextId ^^ i) (nextId nxt))) (nodeIds (pushRequests C ?st3)))
                          [0..<chunks - (chunk + 1)])"
      using "1.IH" [OF True refl refl refl refl] "1.prems" by (simp add: st4)
    have unfold: "freezeLoop C chunks chunk nxt st =
                  freezeLoop C chunks (chunk + 1) (nextId nxt) (pushRequests C ?st3)"
      using True by (subst freezeLoop.simps) (simp add: Let_def)
    show ?thesis
      unfolding unfold IH d
      by (simp add: st4 map_upt_Suc_shift funpow_swap1 del: upt_Suc)
  next
    case False
    then show ?thesis by (simp add: freezeLoop.simps)
  qed
qed

lemma chunkCount_bounds:
  assumes "0 < C"
  shows "L \<le> chunkCount L C * C" and "chunkCount L C * C < L + C"
proof -
  let ?n = "L + (C - 1)"
  have eq: "?n div C * C + ?n mod C = ?n" by simp
  have lt: "?n mod C < C" using assms by simp
  show "L \<le> chunkCount L C * C"
    unfolding chunkCount_def using eq lt by arith
  show "chunkCount L C * C < L + C"
    unfolding chunkCount_def using eq assms by arith
qed

lemma chunkCount_ceiling:
  assumes "0 < C"
  shows "int (chunkCount L C) = \<lceil>real L / real C\<rceil>"
proof -
  have a: "real L \<le> real (chunkCount L C) * real C"
    using chunkCount_bounds(1) [OF assms, of L] by (metis of_nat_le_iff of_nat_mult)
  have b: "real (chunkCount L C) * real C < real L + real C"
    using chunkCount_bounds(2) [OF assms, of L] by (metis of_nat_less_iff of_nat_mult of_nat_add)
  have "\<lceil>real L / real C\<rceil> = int (chunkCount L C)"
  proof (rule ceiling_unique)
    show "of_int (int (chunkCount L C)) - 1 < real L / real C"
      using assms b by (simp add: field_simps)
    show "real L / real C \<le> of_int (int (chunkCount L C))"
      using assms a by (simp add: field_simps)
  qed
  then show ?thesis by simp
qed

lemma freezeWith_small:
  assumes "superFreeze st0 = Inr st" "transactionId st = Some tid" "contents st = Some cs"
    and "length cs < C"
  shows "freezeWith C superFreeze st0 = Inr (st\<lparr>transactionIds := [tid]\<rparr>)"
  using assms by (simp add: freezeWith_def Let_def)

lemma freezeWith_too_long:
  assumes "superFreeze st0 = Inr st" "transactionId st = Some tid" "contents st = Some cs"
    and "\<not> length cs < C" "maxChunks st < int (chunkCount (length cs) C)"
  shows "freezeWith C superFreeze st0 = Inl (ContentsTooLong (length cs) (maxChunks st))"
  using assms by (simp add: freezeWith_def Let_def chunkCount_def)

lemma freezeWith_chunked:
  assumes "superFreeze st0 = Inr st" "transactionId st = Some tid" "contents st = Some cs"
    and "\<not> length cs < C" "\<not> maxChunks st < int (chunkCount (length cs) C)"
  shows "freezeWith C superFreeze st0 =
         Inr ((freezeLoop C (chunkCount (length cs) C) 0 tid
                 (st\<lparr>transactionIds := [tid], transactions := []\<rparr>))
               \<lparr>transactionId := Some tid, startIndex := 0\<rparr>)"
  using assms by (simp add: freezeWith_def Let_def chunkCount_def)

lemma freezeWith_chunked_fields:
  assumes "superFreeze st0 = Inr st" "transactionId st = Some tid" "contents st = Some cs"
    and "\<not> length cs < C" "\<not> maxChunks st < int (chunkCount (length cs) C)"
  obtains st' where "freezeWith C superFreeze st0 = Inr st'"
    and "transactionIds st' = tid # map (\<lambda>i. (nextId ^^ i) tid) [0..<chunkCount (length cs) C]"
    and "transactions st' =
         concat (map (\<lambda>i. map (chunkRequest C (fileId st) cs i ((nextId ^^ i) tid)) (nodeIds st))
                     [0..<chunkCount (length cs) C])"
    and "nodeIds st' = nodeIds st" "transactionId st' = Some tid" "frozen st' = frozen st"
proof -
  let ?st1 = "st\<lparr>transactionIds := [tid], transactions := []\<rparr>"
  let ?st' = "(freezeLoop C (chunkCount (length cs) C) 0 tid ?st1)
               \<lparr>transactionId := Some tid, startIndex := 0\<rparr>"
  have c: "contents ?st1 = Some cs" using assms(3) by simp
  show ?thesis
  proof (rule that [of ?st'])
    show "freezeWith C superFreeze st0 = Inr ?st'"
      using assms by (rule freezeWith_chunked)
    show "transactionIds ?st' = tid # map (\<lambda>i. (nextId ^^ i) tid) [0..<chunkCount (length cs) C]"
      by (simp add: freezeLoop_transactionIds)
    show "transactions ?st' =
         concat (map (\<lambda>i. map (chunkRequest C (fileId st) cs i ((nextId ^^ i) tid)) (nodeIds st))
                     [0..<chunkCount (length cs) C])"
      by (simp add: freezeLoop_transactions [OF c])
    show "nodeIds ?st' = nodeIds st" "frozen ?st' = frozen st"
      by (simp_all add: freezeLoop_frame)
    show "transactionId ?st' = Some tid" by simp
  qed
qed

lemma length_concat_const:
  "length (concat (map (\<lambda>i. map (f i) ns) [0..<n])) = n * length ns"
  by (induction n) simp_all

lemmas example_defs =
  exampleClient_def exampleAppend_def new_FileAppendTransaction_def isFrozen_def
  baseFreezeWith_def freezeWith_def freezeIfNeeded_def signIfOperator_def executeFrozen_def
  executeAll_def execute_def pushRequests_def makeTransaction_def makeTransactionData_def
  subarray_def floor_div_def at_index_def rejectThird_def Let_def

subsection \<open>Chunk count and the size limit\<close>

text \<open>
  Claim C4, as amended. Let the base class's freeze succeed and leave a transaction id and
  non-null contents of length \<open>L\<close>, and let the chunk size \<open>C\<close> be positive. If
  \<open>L < C\<close>, freezing does not partition the payload and succeeds whatever the maximum
  number of chunks is. Otherwise freezing fails with the contents-too-long error exactly
  when \<open>ceil(L / C)\<close> exceeds the maximum, and when it does not fail it has built
  \<open>ceil(L / C)\<close> requests for each node.
\<close>

theorem freezeWith_chunk_count:
  assumes "0 < C" and "superFreeze st0 = Inr st" and "transactionId st = Some tid"
    and "contents st = Some cs"
  shows "if length cs < C
         then freezeWith C superFreeze st0 = Inr (st\<lparr>transactionIds := [tid]\<rparr>)
         else (payloadTooLarge (freezeWith C superFreeze st0) \<longleftrightarrow>
                 maxChunks st < \<lceil>real (length cs) / real C\<rceil>) \<and>
              (\<not> maxChunks st < \<lceil>real (length cs) / real C\<rceil> \<longrightarrow>
                 (\<exists>st'. freezeWith C superFreeze st0 = Inr st' \<and>
                        int (length (transactions st')) =
                          \<lceil>real (length cs) / real C\<rceil> * int (length (nodeIds st'))))"
proof (cases "length cs < C")
  case True
  then show ?thesis using freezeWith_small [where superFreeze = superFreeze and ?st0.0 = st0, OF assms(2-4)] by simp
next
  case False
  note ceil = chunkCount_ceiling [OF assms(1), of "length cs", symmetric]
  show ?thesis
  proof (cases "maxChunks st < int (chunkCount (length cs) C)")
    case True
    then show ?thesis
      using False freezeWith_too_long [where superFreeze = superFreeze and ?st0.0 = st0, OF assms(2-4) False True]
      by (simp add: ceil payloadTooLarge_def)
  next
    case nl: False
    obtain st' where st': "freezeWith C superFreeze st0 = Inr st'"
      and ids: "transactionIds st' = tid # map (\<lambda>i. (nextId ^^ i) tid) [0..<chunkCount (length cs) C]"
      and txs: "transactions st' =
         concat (map (\<lambda>i. map (chunkRequest C (fileId st) cs i ((nextId ^^ i) tid)) (nodeIds st))
                     [0..<chunkCount (length cs) C])"
      and rest: "nodeIds st' = nodeIds st" "transactionId st' = Some tid" "frozen st' = frozen st"
      by (rule freezeWith_chunked_fields
            [where superFreeze = superFreeze and ?st0.0 = st0, OF assms(2-4) False nl])
    have len: "int (length (transactions st')) =
               int (chunkCount (length cs) C) * int (length (nodeIds st'))"
      unfolding txs rest(1) length_concat_const by simp
    have "\<not> payloadTooLarge (freezeWith C superFreeze st0)"
      unfolding st' by (simp add: payloadTooLarge_def)
    then show ?thesis
      using False nl st' len by (simp add: ceil)
  qed
qed

text \<open>
  Claim C4, witness: six bytes in chunks of four with at most ten chunks give two requests
  for the one node.
\<close>

theorem freezeWith_chunk_count_witness:
  "\<not> payloadTooLarge (freezeWith 4 (baseFreezeWith 4 (Some t0) [node3])
                        (exampleAppend [1, 2, 3, 4, 5, 6] 10)) \<and>
   (\<exists>st'. freezeWith 4 (baseFreezeWith 4 (Some t0) [node3]) (exampleAppend [1, 2, 3, 4, 5, 6] 10) =
            Inr st' \<and>
          int (length (transactions st')) = 2 * int (length (nodeIds st')))"
proof -
  let ?sf = "baseFreezeWith 4 (Some t0) [node3]"
  let ?st0 = "exampleAppend [1, 2, 3, 4, 5, 6] 10"
  define st where "st = projr (?sf ?st0)"
  have f: "?sf ?st0 = Inr st" by (simp add: st_def example_defs)
  have t: "transactionId st = Some t0" by (simp add: st_def example_defs)
  have c: "contents st = Some [1, 2, 3, 4, 5, 6]" by (simp add: st_def example_defs)
  have m: "maxChunks st = 10" by (simp add: st_def example_defs)
  have ceil: "\<lceil>real (length [1, 2, 3, 4, 5, 6 :: 8 word]) / real (4::nat)\<rceil> = 2"
    by (simp add: ceiling_eq_iff)
  show ?thesis
    using freezeWith_chunk_count [where superFreeze = ?sf and ?st0.0 = ?st0, OF _ f t c, of 4]
    unfolding ceil m by simp
qed

text \<open>
  Claim C4, counterexample to the claim as stated: one byte, chunk size four, at most zero
  chunks. \<open>ceil(1 / 4) = 1\<close> exceeds the maximum, yet freezing succeeds, because a payload
  shorter than one chunk returns before the count is computed.
\<close>

theorem small_payload_never_too_large:
  "(0::int) < \<lceil>real (length [1 :: 8 word]) / real (4::nat)\<rceil> \<and>
   freezeWith 4 (baseFreezeWith 4 (Some t0) [node3]) (exampleAppend [1] 0) =
     Inr (new_FileAppendTransaction
            \<lparr>contents := Some [1], maxChunks := 0, transactionIds := [t0],
             transactionId := Some t0, nodeIds := [node3],
             transactions := [\<lparr>req_node = node3, req_transactionId = Some t0,
                               req_data = \<lparr>fileID = None, body_contents = Some [1]\<rparr>\<rparr>],
             frozen := True\<rparr>) \<and>
   \<not> payloadTooLarge (freezeWith 4 (baseFreezeWith 4 (Some t0) [node3]) (exampleAppend [1] 0))"
  by (simp add: example_defs payloadTooLarge_def)

subsection \<open>Byte ranges of the chunks\<close>

lemma subarray_byteRange:
  assumes "e \<le> length xs"
  shows "subarray xs b e = byteRange xs b e"
proof (cases "b \<le> e")
  case True
  with assms have "take (e - b) (drop b xs) = map (\<lambda>k. xs ! k) [b..<e]"
    by (intro nth_equalityI) auto
  with True assms show ?thesis
    by (simp add: subarray_def byteRange_def Let_def min_def)
next
  case False
  with assms show ?thesis
    by (simp add: subarray_def byteRange_def Let_def min_def)
qed

lemma take_byteRange:
  assumes "a \<le> b" "b \<le> length xs"
  shows "take a xs @ byteRange xs a b = take b xs"
proof -
  have "take b xs = take (a + (b - a)) xs" using assms by simp
  also have "\<dots> = take a xs @ take (b - a) (drop a xs)" by (rule take_add)
  also have "take (b - a) (drop a xs) = subarray xs a b"
    using assms by (simp add: subarray_def Let_def min_def)
  also have "\<dots> = byteRange xs a b" by (rule subarray_byteRange [OF assms(2)])
  finally show ?thesis by simp
qed

lemma concat_ranges_prefix:
  assumes "0 < C" "n \<le> chunkCount (length cs) C"
  shows "concat (map (\<lambda>i. byteRange cs (i * C) (min ((i + 1) * C) (length cs))) [0..<n]) =
         take (n * C) cs"
  using assms(2)
proof (induction n)
  case 0
  show ?case by simp
next
  case (Suc n)
  have "Suc n * C \<le> chunkCount (length cs) C * C"
    using Suc.prems by (rule mult_le_mono1)
  with chunkCount_bounds(2) [OF assms(1), of "length cs"] have lt: "n * C < length cs"
    by simp
  let ?b = "min ((n + 1) * C) (length cs)"
  have "take (n * C) cs @ byteRange cs (n * C) ?b = take ?b cs"
    using lt by (intro take_byteRange) simp_all
  also have "\<dots> = take (Suc n * C) cs"
    by (simp add: min_def)
  finally show ?case using Suc by simp
qed

lemma concat_ranges:
  assumes "0 < C"
  shows "concat (map (\<lambda>i. byteRange cs (i * C) (min ((i + 1) * C) (length cs)))
                    [0..<chunkCount (length cs) C]) = cs"
  using concat_ranges_prefix [OF assms order_refl, of cs] chunkCount_bounds(1) [OF assms, of "length cs"]
  by simp

lemma chunkRequest_contents:
  "(body_contents \<circ> req_data) (chunkRequest C fid cs i t nd) =
   Some (byteRange cs (i * C) (min ((i + 1) * C) (length cs)))"
  by (simp add: chunkRequest_def subarray_byteRange add.commute)

text \<open>
  Claim C5. For a payload of length \<open>L \<ge> C\<close> that fits the maximum number of chunks,
  the requests built by freezing carry, chunk after chunk and once per node, the ranges
  \<open>[i * C, min ((i + 1) * C) L)\<close> of the contents, and these ranges in order concatenate
  to the contents.
\<close>

theorem chunk_ranges:
  assumes "0 < C" and "superFreeze st0 = Inr st" and "transactionId st = Some tid"
    and "contents st = Some cs" and "C \<le> length cs"
    and "\<lceil>real (length cs) / real C\<rceil> \<le> maxChunks st"
  shows "\<exists>st'. freezeWith C superFreeze st0 = Inr st' \<and>
           map (body_contents \<circ> req_data) (transactions st') =
             concat (map (\<lambda>i. replicate (length (nodeIds st'))
                                 (Some (byteRange cs (i * C) (min ((i + 1) * C) (length cs)))))
                         [0..<nat \<lceil>real (length cs) / real C\<rceil>]) \<and>
           concat (map (\<lambda>i. byteRange cs (i * C) (min ((i + 1) * C) (length cs)))
                       [0..<nat \<lceil>real (length cs) / real C\<rceil>]) = cs"
proof -
  note ceil = chunkCount_ceiling [OF assms(1), of "length cs", symmetric]
  have n: "nat \<lceil>real (length cs) / real C\<rceil> = chunkCount (length cs) C"
    by (simp add: ceil)
  have nl: "\<not> length cs < C" using assms(5) by simp
  have nm: "\<not> maxChunks st < int (chunkCount (length cs) C)"
    using assms(6) by (simp add: ceil)
  obtain st' where st': "freezeWith C superFreeze st0 = Inr st'"
    and ids: "transactionIds st' = tid # map (\<lambda>i. (nextId ^^ i) tid) [0..<chunkCount (length cs) C]"
    and txs: "transactions st' =
       concat (map (\<lambda>i. map (chunkRequest C (fileId st) cs i ((nextId ^^ i) tid)) (nodeIds st))
                   [0..<chunkCount (length cs) C])"
    and rest: "nodeIds st' = nodeIds st" "transactionId st' = Some tid" "frozen st' = frozen st"
    by (rule freezeWith_chunked_fields
          [where superFreeze = superFreeze and ?st0.0 = st0, OF assms(2-4) nl nm])
  have "map (body_contents \<circ> req_data) (transactions st') =
        concat (map (\<lambda>i. replicate (length (nodeIds st'))
                            (Some (byteRange cs (i * C) (min ((i + 1) * C) (length cs)))))
                    [0..<chunkCount (length cs) C])"
    unfolding txs rest(1)
    by (simp add: map_concat o_def chunkRequest_contents [unfolded o_def] map_replicate_const)
  with st' concat_ranges [OF assms(1), of cs] show ?thesis
    unfolding n by blast
qed

text \<open>
  Claim C5, witness: six bytes in chunks of four are split into bytes 0 to 3 and bytes 4
  to 5.
\<close>

theorem chunk_ranges_witness:
  "\<exists>st'. freezeWith 4 (baseFreezeWith 4 (Some t0) [node3]) (exampleAppend [1, 2, 3, 4, 5, 6] 10) =
           Inr st' \<and>
         map (body_contents \<circ> req_data) (transactions st') = [Some [1, 2, 3, 4], Some [5, 6]]"
proof -
  let ?sf = "baseFreezeWith 4 (Some t0) [node3]"
  let ?st0 = "exampleAppend [1, 2, 3, 4, 5, 6] 10"
  let ?cs = "[1, 2, 3, 4, 5, 6] :: bytes"
  define st where "st = projr (?sf ?st0)"
  have f: "?sf ?st0 = Inr st" by (simp add: st_def example_defs)
  have t: "transactionId st = Some t0" by (simp add: st_def example_defs)
  have c: "contents st = Some ?cs" by (simp add: st_def example_defs)
  have ceil: "\<lceil>real (length ?cs) / real (4::nat)\<rceil> = 2"
    by (simp add: ceiling_eq_iff)
  have m: "\<lceil>real (length ?cs) / real (4::nat)\<rceil> \<le> maxChunks st"
    unfolding ceil by (simp add: st_def example_defs)
  have l: "4 \<le> length ?cs" by simp
  have two: "[0..<2] = [0, Suc 0]" by (simp add: upt_rec)
  obtain st' where st': "freezeWith 4 ?sf ?st0 = Inr st'"
    "map (body_contents \<circ> req_data) (transactions st') =
       concat (map (\<lambda>i. replicate (length (nodeIds st'))
                           (Some (byteRange ?cs (i * 4) (min ((i + 1) * 4) (length ?cs)))))
                   [0..<nat \<lceil>real (length ?cs) / real (4::nat)\<rceil>])"
    using chunk_ranges [where superFreeze = ?sf and ?st0.0 = ?st0, OF _ f t c l m] by auto
  have n: "nodeIds st' = [node3]"
    using st'(1) by (simp add: example_defs freezeLoop.simps) auto
  have "map (body_contents \<circ> req_data) (transactions st') = [Some [1, 2, 3, 4], Some [5, 6]]"
    unfolding st'(2) ceil n by (simp add: two byteRange_def upt_rec)
  with st'(1) show ?thesis by (intro exI [of _ st']) simp
qed

section \<open>Executing all chunks\<close>

text \<open>One iteration of the loop, from a state at group \<open>i\<close>.\<close>

lemma executeLoop_iteration:
  assumes "js_less i count"
  shows "executeLoop client count (st\<lparr>transactionId := x, nextGroupIndex := i\<rparr>) rs tr =
         (case superExecute client (groupState st i) of
            Inl e \<Rightarrow> Some (Inl e, tr @ [Dispatched i (at_index (transactionIds st) i)])
          | Inr r \<Rightarrow>
              (case getReceipt client r of
                 Inl e \<Rightarrow> Some (Inl e, tr @ groupEvents st i r)
               | Inr _ \<Rightarrow>
                   executeLoop client count
                     (st\<lparr>transactionId := at_index (transactionIds st) i, nextGroupIndex := Suc i\<rparr>)
                     (rs @ [r]) (tr @ groupEvents st i r)))"
proof -
  define s where "s = st\<lparr>transactionId := x, nextGroupIndex := i\<rparr>"
  have s: "nextGroupIndex s = i" "transactionIds s = transactionIds st"
    by (simp_all add: s_def)
  have e1: "s\<lparr>transactionId := at_index (transactionIds st) i\<rparr> = groupState st i"
    by (simp add: s_def groupState_def)
  have e2: "(groupState st i)\<lparr>nextGroupIndex := Suc i\<rparr> =
            st\<lparr>transactionId := at_index (transactionIds st) i, nextGroupIndex := Suc i\<rparr>"
    by (simp add: groupState_def)
  have g: "nextGroupIndex (groupState st i) = i"
    "transactionId (groupState st i) = at_index (transactionIds st) i"
    by (simp_all add: groupState_def)
  have "executeLoop client count s rs tr =
         (case superExecute client (groupState st i) of
            Inl e \<Rightarrow> Some (Inl e, tr @ [Dispatched i (at_index (transactionIds st) i)])
          | Inr r \<Rightarrow>
              (case getReceipt client r of
                 Inl e \<Rightarrow> Some (Inl e, tr @ groupEvents st i r)
               | Inr _ \<Rightarrow>
                   executeLoop client count
                     (st\<lparr>transactionId := at_index (transactionIds st) i, nextGroupIndex := Suc i\<rparr>)
                     (rs @ [r]) (tr @ groupEvents st i r)))"
    using assms
    by (subst executeLoop.simps)
       (simp add: Let_def s e1 e2 g groupEvents_def split: sum.splits)
  then show ?thesis by (simp only: s_def)
qed

lemma executeLoop_done:
  assumes "\<not> js_less i count"
  shows "executeLoop client count (st\<lparr>transactionId := x, nextGroupIndex := i\<rparr>) rs tr =
         Some (Inr rs, tr)"
  using assms by (subst executeLoop.simps) simp

lemma js_less_mono: "js_less k count \<Longrightarrow> i \<le> k \<Longrightarrow> js_less i count"
  by (cases count) simp_all

lemma executeLoop_prefix:
  assumes "\<forall>i<k. superExecute client (groupState st i) = Inr (resp i) \<and>
                 getReceipt client (resp i) = Inr ()"
    and "\<forall>i<k. js_less i count"
  shows "\<exists>x'. executeLoop client count (st\<lparr>transactionId := x, nextGroupIndex := 0\<rparr>) [] [] =
              executeLoop client count (st\<lparr>transactionId := x', nextGroupIndex := k\<rparr>)
                (map resp [0..<k]) (concat (map (\<lambda>i. groupEvents st i (resp i)) [0..<k]))"
  using assms
proof (induction k)
  case 0
  show ?case by auto
next
  case (Suc k)
  then obtain x' where
    IH: "executeLoop client count (st\<lparr>transactionId := x, nextGroupIndex := 0\<rparr>) [] [] =
         executeLoop client count (st\<lparr>transactionId := x', nextGroupIndex := k\<rparr>)
           (map resp [0..<k]) (concat (map (\<lambda>i. groupEvents st i (resp i)) [0..<k]))"
    by auto
  have "executeLoop client count (st\<lparr>transactionId := x', nextGroupIndex := k\<rparr>)
           (map resp [0..<k]) (concat (map (\<lambda>i. groupEvents st i (resp i)) [0..<k])) =
        executeLoop client count
           (st\<lparr>transactionId := at_index (transactionIds st) k, nextGroupIndex := Suc k\<rparr>)
           (map resp [0..<k] @ [resp k]) (concat (map (\<lambda>i. groupEvents st i (resp i)) [0..<k]) @ groupEvents st k (resp k))"
    using Suc.prems by (subst executeLoop_iteration) auto
  with IH show ?case by auto
qed

lemma executeAll_loop:
  assumes "freezeIfNeeded C client st0 = Inr st1" and "signIfOperator client st1 = Inr st"
  shows "executeAll C client st0 =
         executeLoop client (floor_div (length (transactions st)) (length (nodeIds st)))
           (st\<lparr>transactionId := transactionId st, nextGroupIndex := 0\<rparr>) [] []"
  using assms by (simp add: executeAll_def executeFrozen_def)

lemma executeAll_all_confirmed:
  assumes "freezeIfNeeded C client st0 = Inr st1" and "signIfOperator client st1 = Inr st"
    and "floor_div (length (transactions st)) (length (nodeIds st)) = Fin n"
    and "\<forall>i<n. superExecute client (groupState st i) = Inr (resp i) \<and>
                 getReceipt client (resp i) = Inr ()"
  shows "executeAll C client st0 =
         Some (Inr (map resp [0..<n]), concat (map (\<lambda>i. groupEvents st i (resp i)) [0..<n]))"
proof -
  obtain x' where
    pre: "executeLoop client (Fin n) (st\<lparr>transactionId := transactionId st, nextGroupIndex := 0\<rparr>) [] [] =
          executeLoop client (Fin n) (st\<lparr>transactionId := x', nextGroupIndex := n\<rparr>)
            (map resp [0..<n]) (concat (map (\<lambda>i. groupEvents st i (resp i)) [0..<n]))"
    using executeLoop_prefix [OF assms(4), of "Fin n" "transactionId st"] by auto
  show ?thesis
    unfolding executeAll_loop [OF assms(1,2)] assms(3) pre
    by (simp add: executeLoop_done)
qed

text \<open>
  Claim C1, the code at a payload of two chunks (four bytes, chunk size two, one node).
  Freezing builds the two requests under the ids \<open>t0\<close> and \<open>t0\<close> plus ten seconds, but
  the list \<open>_transactionIds\<close> starts with \<open>t0\<close> before the loop pushes \<open>t0\<close> again, so
  \<open>executeAll\<close> sets \<open>t0\<close> for the second chunk as well.
\<close>

theorem second_chunk_dispatched_under_first_id:
  "executeAll 2 (exampleClient 2 Inr) (exampleAppend [1, 2, 3, 4] 10) =
     Some (Inr [0, 1],
           [Dispatched 0 (Some t0), ReceiptAwaited 0, Dispatched 1 (Some t0), ReceiptAwaited 1]) \<and>
   (case freezeWith 2 (baseFreezeWith 2 (Some t0) [node3]) (exampleAppend [1, 2, 3, 4] 10) of
      Inl e \<Rightarrow> False
    | Inr st \<Rightarrow>
        transactionIds st = [t0, t0, nextId t0] \<and>
        map req_transactionId (transactions st) = [Some t0, Some (nextId t0)])"
  by (simp add: example_defs freezeLoop.simps executeLoop.simps)

text \<open>
  Claim C2, as amended. Let the object be frozen and signed as \<open>executeAll\<close> does, let
  group \<open>k\<close> exist, let every group \<open>i\<close> before \<open>k\<close> be dispatched with the response
  \<open>resp i\<close> and the wait for the receipt of \<open>resp i\<close> succeed, and let the dispatch of
  group \<open>k\<close>, or the wait for the receipt of the response it returned, fail with \<open>e\<close>.
  Then \<open>executeAll\<close> fails with \<open>e\<close> alone (the responses collected so far are not
  returned), and the network calls it made are these, in this order: for each group from
  \<open>0\<close> to \<open>k\<close> its dispatch, followed, before the next dispatch, by the wait for the
  receipt of the very response that this dispatch returned; no group after \<open>k\<close> is
  dispatched. The statement is about the response a dispatch returned, not about the chunk:
  the transaction id in force at a dispatch is the one read from \<open>_transactionIds\<close>
  (claim C1), and whether the receipt found for the response is the chunk's own is not part
  of it.
\<close>

theorem executeAll_stops_at_first_failure:
  assumes "freezeIfNeeded C client st0 = Inr st1" and "signIfOperator client st1 = Inr st"
    and "js_less k (floor_div (length (transactions st)) (length (nodeIds st)))"
    and "\<forall>i<k. superExecute client (groupState st i) = Inr (resp i) \<and>
                 getReceipt client (resp i) = Inr ()"
    and "superExecute client (groupState st k) = Inl e \<or>
         (\<exists>r. superExecute client (groupState st k) = Inr r \<and> getReceipt client r = Inl e)"
    and "0 < C"
  shows "executeAll C client st0 =
         Some (Inl e,
               concat (map (\<lambda>i. groupEvents st i (resp i)) [0..<k]) @
               Dispatched k (at_index (transactionIds st) k) #
                 (case superExecute client (groupState st k) of
                    Inl _ \<Rightarrow> [] | Inr r \<Rightarrow> [ReceiptAwaited r]))"
proof -
  let ?count = "floor_div (length (transactions st)) (length (nodeIds st))"
  have less: "\<forall>i<k. js_less i ?count"
    using assms(3) by (auto intro: js_less_mono)
  obtain x' where
    pre: "executeLoop client ?count (st\<lparr>transactionId := transactionId st, nextGroupIndex := 0\<rparr>) [] [] =
          executeLoop client ?count (st\<lparr>transactionId := x', nextGroupIndex := k\<rparr>)
            (map resp [0..<k]) (concat (map (\<lambda>i. groupEvents st i (resp i)) [0..<k]))"
    using executeLoop_prefix [OF assms(4) less] by blast
  from assms(5) show ?thesis
  proof
    assume d: "superExecute client (groupState st k) = Inl e"
    show ?thesis
      unfolding executeAll_loop [OF assms(1,2)] pre
      by (simp add: executeLoop_iteration [OF assms(3)] d)
  next
    assume "\<exists>r. superExecute client (groupState st k) = Inr r \<and> getReceipt client r = Inl e"
    then obtain r where r: "superExecute client (groupState st k) = Inr r"
      "getReceipt client r = Inl e" by blast
    show ?thesis
      unfolding executeAll_loop [OF assms(1,2)] pre
      by (simp add: executeLoop_iteration [OF assms(3)] r groupEvents_def)
  qed
qed

text \<open>
  Claim C2, witness: three chunks, the dispatch of the third rejected.
\<close>

theorem executeAll_stops_at_first_failure_witness:
  "executeAll 2 (exampleClient 2 rejectThird) (exampleAppend [1, 2, 3, 4, 5, 6] 10) =
     Some (Inl (PrecheckRejected 7),
           [Dispatched 0 (Some t0), ReceiptAwaited 0, Dispatched 1 (Some t0), ReceiptAwaited 1,
            Dispatched 2 (Some (nextId t0))])"
proof -
  let ?client = "exampleClient 2 rejectThird"
  let ?st0 = "exampleAppend [1, 2, 3, 4, 5, 6] 10"
  define st where "st = projr (freezeIfNeeded 2 ?client ?st0)"
  have ids: "transactionIds st = [t0, t0, nextId t0, nextId (nextId t0)]"
    and len: "length (transactions st) = 3" "length (nodeIds st) = 1"
    by (simp_all add: st_def example_defs freezeLoop.simps)
  have f: "freezeIfNeeded 2 ?client ?st0 = Inr st"
    by (simp add: st_def example_defs freezeLoop.simps)
  have s: "signIfOperator ?client st = Inr st"
    by (simp add: signIfOperator_def exampleClient_def)
  have j: "js_less 2 (floor_div (length (transactions st)) (length (nodeIds st)))"
    by (simp add: len floor_div_def)
  have a: "\<forall>i<2. superExecute ?client (groupState st i) = Inr (id i) \<and>
                  getReceipt ?client (id i) = Inr ()"
    by (simp add: exampleClient_def groupState_def rejectThird_def)
  have b: "superExecute ?client (groupState st 2) = Inl (PrecheckRejected 7) \<or>
           (\<exists>r. superExecute ?client (groupState st 2) = Inr r \<and>
                getReceipt ?client r = Inl (PrecheckRejected 7))"
    by (simp add: exampleClient_def groupState_def rejectThird_def)
  have two: "[0..<2] = [0, Suc 0]" by (simp add: upt_rec)
  show ?thesis
    using executeAll_stops_at_first_failure [OF f s j a b zero_less_numeral]
    by (simp add: groupEvents_def ids at_index_def two exampleClient_def groupState_def
        rejectThird_def)
qed

text \<open>
  Claim C2, counterexample to the claim as stated: with three chunks and the dispatch of
  the third rejected, the call ends with the error and returns no list of responses, so the
  two confirmed responses are not handed to the caller.
\<close>

theorem executeAll_discards_confirmed_prefix:
  "executeAll 2 (exampleClient 2 rejectThird) (exampleAppend [1, 2, 3, 4, 5, 6] 10) =
     Some (Inl (PrecheckRejected 7),
           [Dispatched 0 (Some t0), ReceiptAwaited 0, Dispatched 1 (Some t0), ReceiptAwaited 1,
            Dispatched 2 (Some (nextId t0))]) \<and>
   returned (executeAll 2 (exampleClient 2 rejectThird) (exampleAppend [1, 2, 3, 4, 5, 6] 10)) \<noteq>
     Some [0, 1]"
  by (simp add: example_defs freezeLoop.simps executeLoop.simps returned_def)

section \<open>Frozen and unfrozen objects\<close>

text \<open>
  Claim C6, as amended. On a frozen object each of the three setters fails. On an object
  that is not frozen \<open>executeAll\<close> does not fail for that reason: it freezes the object
  with the client first and, when freezing succeeds, signs and runs the loop on the frozen
  object.
\<close>

theorem setters_fail_when_frozen_execute_freezes:
  assumes "0 < C"
  shows "(isFrozen st \<longrightarrow>
      setFileId fromString fid st = Inl TransactionImmutable \<and>
      setContents encode cs st = Inl TransactionImmutable \<and>
      setMaxChunks m st = Inl TransactionImmutable) \<and>
   (\<not> isFrozen st \<longrightarrow>
      executeAll C client st =
        (case freezeWith C (superFreezeWith client) st of
           Inl e \<Rightarrow> Some (Inl e, [])
         | Inr st' \<Rightarrow> executeFrozen client st'))"
  by (simp add: setFileId_def setContents_def setMaxChunks_def requireNotFrozen_def
      executeAll_def freezeIfNeeded_def)

text \<open>
  Claim C6, witness: a setter on a frozen object, and \<open>executeAll\<close> on an unfrozen one.
\<close>

theorem setters_fail_when_frozen_execute_freezes_witness:
  "setMaxChunks 3 ((exampleAppend [1] 10)\<lparr>frozen := True\<rparr>) = Inl TransactionImmutable \<and>
   executeAll 4 (exampleClient 4 Inr) (exampleAppend [1] 10) =
     Some (Inr [0], [Dispatched 0 (Some t0), ReceiptAwaited 0])"
proof -
  have fr: "isFrozen ((exampleAppend [1] 10)\<lparr>frozen := True\<rparr>)" by (simp add: isFrozen_def)
  have nf: "\<not> isFrozen (exampleAppend [1] 10)" by (simp add: example_defs)
  from setters_fail_when_frozen_execute_freezes
         [where st = "(exampleAppend [1] 10)\<lparr>frozen := True\<rparr>" and m = 3 and C = 4
            and client = "exampleClient 4 Inr" and fromString = "\<lambda>s. Inl InvalidFileId"
            and fid = "OfFileId node3" and encode = "\<lambda>s. []" and cs = "OfBytes []",
          OF zero_less_numeral]
       fr
  have 1: "setMaxChunks 3 ((exampleAppend [1] 10)\<lparr>frozen := True\<rparr>) = Inl TransactionImmutable"
    by blast
  from setters_fail_when_frozen_execute_freezes
         [where st = "exampleAppend [1] 10" and m = 3 and C = 4
            and client = "exampleClient 4 Inr" and fromString = "\<lambda>s. Inl InvalidFileId"
            and fid = "OfFileId node3" and encode = "\<lambda>s. []" and cs = "OfBytes []",
          OF zero_less_numeral]
       nf
  have "executeAll 4 (exampleClient 4 Inr) (exampleAppend [1] 10) =
        (case freezeWith 4 (superFreezeWith (exampleClient 4 Inr)) (exampleAppend [1] 10) of
           Inl e \<Rightarrow> Some (Inl e, [])
         | Inr st' \<Rightarrow> executeFrozen (exampleClient 4 Inr) st')"
    by blast
  then have 2: "executeAll 4 (exampleClient 4 Inr) (exampleAppend [1] 10) =
                Some (Inr [0], [Dispatched 0 (Some t0), ReceiptAwaited 0])"
    by (simp add: example_defs executeLoop.simps)
  from 1 2 show ?thesis by simp
qed

text \<open>
  Claim C6, counterexample to the claim as stated: \<open>execute\<close> on an object that is
  not frozen succeeds.
\<close>

theorem execute_unfrozen_succeeds:
  "\<not> isFrozen (exampleAppend [1] 10) \<and>
   execute 4 (exampleClient 4 Inr) (exampleAppend [1] 10) =
     Some (Inr (Some 0), [Dispatched 0 (Some t0), ReceiptAwaited 0])"
  by (simp add: example_defs executeLoop.simps)

section \<open>Rounding\<close>

text \<open>
  The exponent found by \<open>scale\<close> is the one of the binade, so \<open>fl\<close> rounds within
  the binade of its argument. Whole numbers below \<open>2^53\<close> in size are not changed, and
  no real that is a number is: a real \<open>m * 2^e\<close> with \<open>m\<close> below \<open>2^53\<close> in
  size, \<open>e\<close> at least \<open>-1074\<close> and a size below \<open>2^1024\<close>.
\<close>

lemma roundEven_of_int [simp]: "roundEven (of_int n) = n"
  by (simp add: roundEven_def)

lemma powr_powi: "(2::real) powr (of_int e) = 2 powi e"
  by (rule powr_real_of_int') simp_all

lemma floor_log2_unique:
  assumes "0 < a" "2 powi e \<le> a" "a < 2 powi (e + 1)"
  shows "\<lfloor>log 2 a\<rfloor> = e"
proof (rule floor_unique)
  have "2 powr (of_int e) \<le> a" using assms(2) by (simp only: powr_powi)
  then show "of_int e \<le> log 2 a" using assms(1) by (subst le_log_iff) simp_all
  have "a < 2 powr (of_int (e + 1))" using assms(3) by (simp only: powr_powi)
  then have "log 2 a < of_int (e + 1)" using assms(1) by (subst log_less_iff) simp_all
  then show "log 2 a < of_int e + 1" by simp
qed

lemma floor_log2_bounds:
  assumes "0 < a"
  shows "2 powi \<lfloor>log 2 a\<rfloor> \<le> a" "a < 2 powi (\<lfloor>log 2 a\<rfloor> + 1)"
proof -
  have "of_int \<lfloor>log 2 a\<rfloor> \<le> log 2 a" by simp
  then have "2 powr (of_int \<lfloor>log 2 a\<rfloor>) \<le> a"
    using assms by (subst (asm) le_log_iff) simp_all
  then show "2 powi \<lfloor>log 2 a\<rfloor> \<le> a" by (simp only: powr_powi)
  have "log 2 a < of_int (\<lfloor>log 2 a\<rfloor> + 1)" by linarith
  then have "a < 2 powr (of_int (\<lfloor>log 2 a\<rfloor> + 1))"
    using assms by (subst (asm) log_less_iff) simp_all
  then show "a < 2 powi (\<lfloor>log 2 a\<rfloor> + 1)" by (simp only: powr_powi)
qed

lemma powi_mono: "e \<le> e' \<Longrightarrow> (2::real) powi e \<le> 2 powi e'"
  by (rule power_int_increasing) simp_all

lemma powi_less_imp: "(2::real) powi e < 2 powi e' \<Longrightarrow> e < e'"
  using powi_mono [of e' e] by (cases "e < e'") auto

lemma powi_Suc: "(2::real) powi (e + 1) = 2 * 2 powi e"
  by (simp add: power_int_add)

lemma powi_pred: "(2::real) powi (e - 1) = 2 powi e / 2"
  by (simp add: power_int_diff)

lemma scale_eq:
  assumes "2 powi e \<le> b * 2 powi e0" "b * 2 powi e0 < 2 powi (e + 1)"
    and "- 1022 \<le> e" "- 1022 \<le> e0" "nat \<bar>e - e0\<bar> \<le> n"
  shows "scale n e0 b = e"
  using assms
proof (induction n arbitrary: e0 b)
  case 0
  then show ?case by simp
next
  case (Suc n)
  have pos: "(0::real) < 2 powi e0" by simp
  show ?case
  proof (cases "2 \<le> b")
    case True
    then have "2 powi (e0 + 1) \<le> b * 2 powi e0"
      using pos by (simp add: powi_Suc)
    with Suc.prems(2) have "(2::real) powi (e0 + 1) < 2 powi (e + 1)" by linarith
    then have lt: "e0 < e" using powi_less_imp [of "e0 + 1" "e + 1"] by simp
    have eq: "b / 2 * 2 powi (e0 + 1) = b * 2 powi e0" by (simp add: powi_Suc)
    have p1: "2 powi e \<le> b / 2 * 2 powi (e0 + 1)" using Suc.prems(1) by (simp only: eq)
    have p2: "b / 2 * 2 powi (e0 + 1) < 2 powi (e + 1)" using Suc.prems(2) by (simp only: eq)
    have p4: "- 1022 \<le> e0 + 1" using Suc.prems(4) by simp
    have p5: "nat \<bar>e - (e0 + 1)\<bar> \<le> n" using Suc.prems(5) lt by linarith
    have "scale n (e0 + 1) (b / 2) = e"
      by (rule Suc.IH [OF p1 p2 Suc.prems(3) p4 p5])
    with True show ?thesis by simp
  next
    case nb: False
    show ?thesis
    proof (cases "b < 1 \<and> - 1022 < e0")
      case True
      then have "b * 2 powi e0 < 2 powi e0" using pos by simp
      with Suc.prems(1) have "(2::real) powi e < 2 powi e0" by linarith
      then have lt: "e < e0" by (rule powi_less_imp)
      have eq: "b * 2 * 2 powi (e0 - 1) = b * 2 powi e0" by (simp add: powi_pred)
      have p1: "2 powi e \<le> b * 2 * 2 powi (e0 - 1)" using Suc.prems(1) by (simp only: eq)
      have p2: "b * 2 * 2 powi (e0 - 1) < 2 powi (e + 1)" using Suc.prems(2) by (simp only: eq)
      have p4: "- 1022 \<le> e0 - 1" using True by simp
      have p5: "nat \<bar>e - (e0 - 1)\<bar> \<le> n" using Suc.prems(5) lt by linarith
      have "scale n (e0 - 1) (b * 2) = e"
        by (rule Suc.IH [OF p1 p2 Suc.prems(3) p4 p5])
      with nb True show ?thesis by simp
    next
      case False
      have "e = e0"
      proof (cases "b < 1")
        case True
        with False Suc.prems(4) have e0: "e0 = - 1022" by simp
        from True have "b * 2 powi e0 < 2 powi e0" using pos by simp
        with Suc.prems(1) have "(2::real) powi e < 2 powi e0" by linarith
        then have "e < e0" by (rule powi_less_imp)
        with e0 Suc.prems(3) show ?thesis by simp
      next
        case b1: False
        then have "2 powi e0 \<le> b * 2 powi e0" using pos by simp
        with Suc.prems(2) have "(2::real) powi e0 < 2 powi (e + 1)" by linarith
        then have 1: "e0 < e + 1" by (rule powi_less_imp)
        from nb have "b * 2 powi e0 < 2 powi (e0 + 1)" using pos by (simp add: powi_Suc)
        with Suc.prems(1) have "(2::real) powi e < 2 powi (e0 + 1)" by linarith
        then have "e < e0 + 1" by (rule powi_less_imp)
        with 1 show ?thesis by simp
      qed
      with nb False show ?thesis by auto
    qed
  qed
qed

lemma binade_eq:
  assumes "2 powi e \<le> a" "a < 2 powi (e + 1)" "- 1022 \<le> e" "e \<le> 1023"
  shows "binade a = e"
  unfolding binade_def using assms by (intro scale_eq) simp_all

lemma fl_positive:
  assumes "0 < x" "2 powi e \<le> x" "x < 2 powi (e + 1)" "- 1022 \<le> e" "e \<le> 1023"
  shows "fl x =
         (let y = of_int (roundEven (x / 2 powi (e - 52))) * 2 powi (e - 52)
          in if overflowBound \<le> y then PosInfinity else Finite y)"
  using assms(1) by (simp add: fl_def ulp_def binade_eq [OF assms(2-5)] Let_def)

lemma fl_zero [simp]: "fl 0 = Finite 0"
  by (simp add: fl_def)

lemma fl_of_int:
  assumes "\<bar>m\<bar> < 2 ^ 53"
  shows "fl (of_int m) = Finite (of_int m)"
proof (cases "m = 0")
  case True
  then show ?thesis by simp
next
  case False
  define a :: real where "a = \<bar>of_int m\<bar>"
  define e where "e = \<lfloor>log 2 a\<rfloor>"
  have a1: "1 \<le> a"
  proof -
    have "1 \<le> \<bar>m\<bar>" using False by simp
    then have "real_of_int 1 \<le> real_of_int \<bar>m\<bar>" by (simp only: of_int_le_iff)
    then show ?thesis by (simp add: a_def)
  qed
  then have a0: "0 < a" by simp
  have a53: "a < 2 ^ 53"
  proof -
    have "real_of_int \<bar>m\<bar> < real_of_int (2 ^ 53)" using assms by (simp only: of_int_less_iff)
    then show ?thesis by (simp add: a_def)
  qed
  note b = floor_log2_bounds [OF a0, folded e_def]
  have e0: "0 \<le> e"
  proof (rule ccontr)
    assume "\<not> 0 \<le> e"
    then have "e + 1 \<le> 0" by simp
    then have "(2::real) powi (e + 1) \<le> 2 powi 0" by (intro power_int_increasing) simp_all
    with b(2) a1 show False by simp
  qed
  have e52: "e \<le> 52"
  proof (rule ccontr)
    assume "\<not> e \<le> 52"
    then have "53 \<le> e" by simp
    then have "(2::real) powi 53 \<le> 2 powi e" by (intro power_int_increasing) simp_all
    moreover have "(2::real) powi 53 = 2 ^ 53" by (simp only: power_int_numeral)
    ultimately show False using b(1) a53 by linarith
  qed
  have bin: "binade a = e" using b e0 e52 by (intro binade_eq) simp_all
  define k where "k = nat (52 - e)"
  have u: "ulp a = 1 / 2 ^ k"
  proof -
    have "e - 52 = - int k" using e52 by (simp add: k_def)
    then have "(2::real) powi (e - 52) = 2 powi (- int k)" by simp
    also have "\<dots> = inverse (2 ^ k)" by (simp only: power_int_minus power_int_of_nat)
    finally show ?thesis by (simp add: ulp_def bin field_simps)
  qed
  have "a / ulp a = a * 2 ^ k" by (simp add: u)
  also have "\<dots> = of_int (\<bar>m\<bar> * 2 ^ k)" by (simp add: a_def)
  finally have q: "a / ulp a = of_int (\<bar>m\<bar> * 2 ^ k)" .
  have r: "roundEven (a / ulp a) = \<bar>m\<bar> * 2 ^ k"
    by (simp only: q roundEven_of_int)
  have "of_int (roundEven (a / ulp a)) * ulp a = of_int (\<bar>m\<bar> * 2 ^ k) * (1 / 2 ^ k)"
    by (subst r, subst u, rule refl)
  also have "\<dots> = a" by (simp add: a_def)
  finally have y: "of_int (roundEven (a / ulp a)) * ulp a = a" .
  have big: "\<not> overflowBound \<le> a"
  proof -
    have "(2::real) ^ 53 \<le> 2 ^ 1024" by (intro power_increasing) simp_all
    with a53 show ?thesis unfolding overflowBound_def by linarith
  qed
  have s: "sgn (real_of_int m) * a = of_int m" by (simp add: a_def sgn_if)
  have "fl (of_int m) = Finite (sgn (real_of_int m) * a)"
    using False big unfolding fl_def Let_def a_def [symmetric] y by simp
  then show ?thesis by (simp only: s)
qed

lemma fl_numeral [simp]:
  "numeral n < (9007199254740992::int) \<Longrightarrow> fl (numeral n) = Finite (numeral n)"
  using fl_of_int [of "numeral n"] by simp

lemma fl_one [simp]: "fl 1 = Finite 1"
  using fl_of_int [of 1] by simp


lemma scale_subnormal:
  assumes "0 < b" "b * 2 powi e0 < 2 powi (- 1022)" "- 1022 \<le> e0" "nat (e0 + 1022) \<le> n"
  shows "scale n e0 b = - 1022"
  using assms
proof (induction n arbitrary: e0 b)
  case 0
  then show ?case by simp
next
  case (Suc n)
  have pos: "(0::real) < 2 powi e0" by simp
  have low: "(2::real) powi (- 1022) \<le> 2 powi e0" using Suc.prems(3) by (rule powi_mono)
  have b1: "b < 1"
  proof (rule ccontr)
    assume "\<not> b < 1"
    then have "2 powi e0 \<le> b * 2 powi e0" using pos by simp
    with low Suc.prems(2) show False by linarith
  qed
  show ?case
  proof (cases "- 1022 < e0")
    case True
    have eq: "b * 2 * 2 powi (e0 - 1) = b * 2 powi e0" by (simp add: powi_pred)
    have p1: "0 < b * 2" using Suc.prems(1) by simp
    have p2: "b * 2 * 2 powi (e0 - 1) < 2 powi (- 1022)" using Suc.prems(2) by (simp only: eq)
    have p3: "- 1022 \<le> e0 - 1" using True by simp
    have p4: "nat (e0 - 1 + 1022) \<le> n" using Suc.prems(4) True by linarith
    have "scale n (e0 - 1) (b * 2) = - 1022" by (rule Suc.IH [OF p1 p2 p3 p4])
    with b1 True show ?thesis by simp
  next
    case False
    with Suc.prems(3) have "e0 = - 1022" by simp
    with b1 show ?thesis by simp
  qed
qed

lemma binade_subnormal:
  assumes "0 < a" "a < 2 powi (- 1022)"
  shows "binade a = - 1022"
  unfolding binade_def using assms by (intro scale_subnormal) simp_all

text \<open>A real that is a number stands for itself.\<close>

lemma fl_number:
  assumes "\<bar>m\<bar> < 2 ^ 53" "- 1074 \<le> e" "\<bar>of_int m\<bar> * 2 powi e < overflowBound"
  shows "fl (of_int m * 2 powi e) = Finite (of_int m * 2 powi e)"
proof (cases "m = 0")
  case True
  then show ?thesis by simp
next
  case False
  define x :: real where "x = of_int m * 2 powi e"
  define a :: real where "a = \<bar>of_int m\<bar> * 2 powi e"
  have ax: "a = \<bar>x\<bar>" by (simp add: a_def x_def abs_mult)
  have m0: "0 < \<bar>real_of_int m\<bar>" using False by simp
  have a0: "0 < a" unfolding a_def using m0 by simp
  have x0: "x \<noteq> 0" using a0 ax by auto
  have m53: "\<bar>real_of_int m\<bar> < 2 powi 53"
  proof -
    have "real_of_int \<bar>m\<bar> < real_of_int (2 ^ 53)" using assms(1) by (simp only: of_int_less_iff)
    moreover have "(2::real) powi 53 = 2 ^ 53" by (simp only: power_int_numeral)
    ultimately show ?thesis by simp
  qed
  have up: "a < 2 powi (e + 53)"
  proof -
    have "a < 2 powi 53 * 2 powi e" unfolding a_def using m53 by simp
    also have "\<dots> = 2 powi (e + 53)" by (simp add: power_int_add)
    finally show ?thesis .
  qed
  have le: "binade a - 52 \<le> e"
  proof (cases "a < 2 powi (- 1022)")
    case True
    from binade_subnormal [OF a0 True] assms(2) show ?thesis by simp
  next
    case False
    define l where "l = \<lfloor>log 2 a\<rfloor>"
    note b = floor_log2_bounds [OF a0, folded l_def]
    from False b(2) have "(2::real) powi (- 1022) < 2 powi (l + 1)" by linarith
    then have l1: "- 1022 \<le> l" using powi_less_imp [of "- 1022" "l + 1"] by simp
    have "(2::real) powi 1024 = 2 ^ 1024" by (simp only: power_int_numeral)
    with b(1) assms(3) have "(2::real) powi l < 2 powi 1024"
      unfolding a_def [symmetric] overflowBound_def by linarith
    then have l2: "l \<le> 1023" using powi_less_imp [of l 1024] by simp
    have bin: "binade a = l" using b l1 l2 by (intro binade_eq)
    from b(1) up have "(2::real) powi l < 2 powi (e + 53)" by linarith
    then have "l < e + 53" by (rule powi_less_imp)
    with bin show ?thesis by simp
  qed
  define u :: real where "u = 2 powi (binade a - 52)"
  have uu: "ulp a = u" by (simp add: ulp_def u_def)
  have upos: "0 < u" by (simp add: u_def)
  define k where "k = nat (e - (binade a - 52))"
  have ek: "e = (binade a - 52) + int k" using le by (simp add: k_def)
  have pk: "(2::real) powi e = u * 2 ^ k"
    unfolding u_def by (subst ek) (simp add: power_int_add)
  have q: "a / u = of_int (\<bar>m\<bar> * 2 ^ k)"
  proof -
    have "a = \<bar>of_int m\<bar> * (u * 2 ^ k)" by (simp only: a_def pk)
    then have "a / u = \<bar>of_int m\<bar> * 2 ^ k" using upos by simp
    then show ?thesis by simp
  qed
  have r: "roundEven (a / u) = \<bar>m\<bar> * 2 ^ k"
    by (simp only: q roundEven_of_int)
  have "of_int (roundEven (a / u)) * u = a / u * u"
    by (subst r, subst q, rule refl)
  also have "\<dots> = a" using upos by simp
  finally have y: "of_int (roundEven (a / ulp a)) * ulp a = a" by (simp only: uu)
  have big: "\<not> overflowBound \<le> a" using assms(3) by (simp add: a_def)
  have s: "sgn x * a = x" by (simp add: ax sgn_if)
  have "fl x = Finite (sgn x * a)"
    using x0 big unfolding fl_def Let_def ax [symmetric] y by simp
  then have "fl x = Finite x" by (simp only: s)
  then show ?thesis by (simp only: x_def)
qed

text \<open>
  The number written \<open>0.24\<close> is \<open>1080863910568919 / 2^52\<close>, a little less than
  the real 0.24. The floor of the exact product of 500, that number and \<open>2^1 - 1\<close> is
  119, but the delay at attempt 1 is 120: the product of 500 and the number rounds up to
  120. The number written \<open>0.01742857142857143\<close> is \<open>5023443698644119 / 2^58\<close>. The
  floor of the exact product of 500, that number and \<open>2^3 - 1\<close> is 61, but the delay at
  attempt 3 is 60: the first product rounds down.
\<close>

lemma fl_half: "fl (1 / 2) = Finite (1 / 2)"
  using fl_number [of 1 "- 1"] by (simp add: overflowBound_def)

lemma fl_written_024: "fl (24 / 100) = Finite (1080863910568919 / 2 ^ 52)"
  by (subst fl_positive [where e = "- 3"]) (simp_all add: roundEven_def overflowBound_def Let_def)

lemma fl_written_017: "fl (1742857142857143 / 10 ^ 17) = Finite (5023443698644119 / 2 ^ 58)"
  by (subst fl_positive [where e = "- 6"]) (simp_all add: roundEven_def overflowBound_def Let_def)

lemma mulN_500_rounds_up: "mulN (Finite 500) (Finite (1080863910568919 / 2 ^ 52)) = Finite 120"
  unfolding mulN.simps
  by (subst fl_positive [where e = 6]) (simp_all add: roundEven_def overflowBound_def Let_def)

lemma retryDelay_roundingPolls:
  "retryDelay roundingPolls j = floorN (mulN (Finite 120) (subN (pow2 j) (Finite 1)))"
  by (simp only: retryDelay_def roundingPolls_def receiptRetryDelayMs_def PollEnv.simps
      fl_written_024 mulN_500_rounds_up)

lemma retryDelay_rounds_up:
  "retryDelay roundingPolls 1 = Finite 120 \<and>
   \<lfloor>500 * (1080863910568919 / 2 ^ 52) * (2 ^ 1 - 1 :: real)\<rfloor> = (119::int)"
proof
  show "retryDelay roundingPolls 1 = Finite 120"
    by (simp add: retryDelay_roundingPolls subN_def pow2_def)
  show "\<lfloor>500 * (1080863910568919 / 2 ^ 52) * (2 ^ 1 - 1 :: real)\<rfloor> = (119::int)"
    by (simp; linarith)
qed

lemma retryDelay_rounds_down:
  "retryDelay \<lparr>getReceiptAt = g, randomAt = (\<lambda>a. 1742857142857143 / 10 ^ 17), nowAt = n\<rparr> 3 =
     Finite 60 \<and>
   \<lfloor>500 * (5023443698644119 / 2 ^ 58) * (2 ^ 3 - 1 :: real)\<rfloor> = (61::int)"
proof
  have 1: "mulN (Finite 500) (Finite (5023443698644119 / 2 ^ 58)) =
           Finite (4905706736957147 / 562949953421312)"
    unfolding mulN.simps
    by (subst fl_positive [where e = 3]) (simp_all add: roundEven_def overflowBound_def Let_def)
  have 2: "subN (pow2 3) (Finite 1) = Finite 7"
    by (simp add: subN_def pow2_def)
  have 3: "mulN (Finite (4905706736957147 / 562949953421312)) (Finite 7) =
           Finite (8584986789675007 / 140737488355328)"
    unfolding mulN.simps
    by (subst fl_positive [where e = 5]) (simp_all add: roundEven_def overflowBound_def Let_def)
  show "retryDelay \<lparr>getReceiptAt = g, randomAt = (\<lambda>a. 1742857142857143 / 10 ^ 17), nowAt = n\<rparr> 3 =
        Finite 60"
    unfolding retryDelay_def receiptRetryDelayMs_def PollEnv.simps fl_written_017 1 2 3 by simp
  show "\<lfloor>500 * (5023443698644119 / 2 ^ 58) * (2 ^ 3 - 1 :: real)\<rfloor> = (61::int)"
    by (simp; linarith)
qed

section \<open>Waiting for the receipt\<close>

text \<open>
  The four ways one attempt of the loop goes on, and the run up to attempt \<open>k\<close> when
  every earlier attempt is retried.
\<close>

lemma waitLoop_retry:
  assumes "pending env j" "\<not> expired env d j"
  shows "waitLoop env d j tr = waitLoop env d (Suc j) (tr @ [Polled j, Slept (retryDelay env j)])"
  using assms
  by (subst waitLoop.simps) (auto simp: pending_def expired_def Let_def split: sum.splits)

lemma waitLoop_expire:
  assumes "pending env j" "expired env d j"
  shows "waitLoop env d j tr = Some (Inl ConsensusTimeout, tr @ [Polled j])"
  using assms
  by (subst waitLoop.simps) (auto simp: pending_def expired_def Let_def split: sum.splits)

lemma waitLoop_terminal:
  assumes "getReceiptAt env j = Inr r" "status r \<notin> {UNKNOWN, OK}"
  shows "waitLoop env d j tr =
         Some (if status r = SUCCESS then Inr r else Inl (HederaError (status r)), tr @ [Polled j])"
  using assms by (subst waitLoop.simps) auto

lemma waitLoop_query_fails:
  assumes "getReceiptAt env j = Inl c"
  shows "waitLoop env d j tr = Some (Inl (QueryFailed c), tr @ [Polled j])"
  using assms by (subst waitLoop.simps) auto

lemma waitLoop_prefix:
  assumes "\<forall>j<k. pending env j \<and> \<not> expired env d j"
  shows "waitLoop env d 0 tr =
         waitLoop env d k (tr @ concat (map (\<lambda>j. [Polled j, Slept (retryDelay env j)]) [0..<k]))"
  using assms
proof (induction k)
  case 0
  show ?case by simp
next
  case (Suc k)
  then show ?case by (simp add: waitLoop_retry)
qed

lemma waitForReceipt_loop:
  assumes "transactionvalidstart (txnId tx) = Some ts"
  shows "waitForReceipt toMs env tx =
         waitLoop env (addN (toMs ts) (Finite 120000)) 0 [Slept (Finite receiptInitialDelayMs)]"
  using assms by (simp add: waitForReceipt_def Let_def)

lemma timesOutFrom_now: "pending env a \<Longrightarrow> expired env d a \<Longrightarrow> timesOutFrom env d a"
  unfolding timesOutFrom_def by (intro exI [of _ a]) auto

lemma timesOutFrom_later:
  assumes "pending env a" "\<not> expired env d a" "timesOutFrom env d (a + 1)"
  shows "timesOutFrom env d a"
proof -
  from assms(3) obtain k where k: "a + 1 \<le> k"
    "\<forall>j. a + 1 \<le> j \<and> j < k \<longrightarrow> pending env j \<and> \<not> expired env d j"
    "pending env k" "expired env d k"
    unfolding timesOutFrom_def by blast
  have "\<forall>j. a \<le> j \<and> j < k \<longrightarrow> pending env j \<and> \<not> expired env d j"
  proof (intro allI impI)
    fix j assume "a \<le> j \<and> j < k"
    then consider "j = a" | "a + 1 \<le> j \<and> j < k" by linarith
    then show "pending env j \<and> \<not> expired env d j"
      using assms(1,2) k(2) by cases auto
  qed
  with k show ?thesis
    unfolding timesOutFrom_def by (intro exI [of _ k]) auto
qed

lemma waitLoop_timeout_only_if:
  assumes "waitLoop env d a tr = Some y"
  shows "fst y = Inl ConsensusTimeout \<longrightarrow> timesOutFrom env d a"
proof (rule waitLoop.raw_induct
    [where P = "\<lambda>env d a tr y. fst y = Inl ConsensusTimeout \<longrightarrow> timesOutFrom env d a", OF _ assms])
  fix loop env d a tr y
  assume IH: "\<And>env d a tr y. loop env d a tr = Some y \<Longrightarrow>
                fst y = Inl ConsensusTimeout \<longrightarrow> timesOutFrom env d a"
    and body: "(case getReceiptAt env a of
        Inl code \<Rightarrow> Some (Inl (QueryFailed code), tr @ [Polled a])
      | Inr receipt \<Rightarrow>
          if status receipt \<in> {UNKNOWN, OK} then
            let delay = retryDelay env a in
            if gtN (addN (fl (of_int (nowAt env a))) delay) d
            then Some (Inl ConsensusTimeout, tr @ [Polled a])
            else loop env d (a + 1) (tr @ [Polled a, Slept delay])
          else if status receipt \<noteq> SUCCESS
          then Some (Inl (HederaError (status receipt)), tr @ [Polled a])
          else Some (Inr receipt, tr @ [Polled a])) = Some y"
  show "fst y = Inl ConsensusTimeout \<longrightarrow> timesOutFrom env d a"
  proof (cases "getReceiptAt env a")
    case (Inl c)
    with body show ?thesis by auto
  next
    case (Inr r)
    show ?thesis
    proof (cases "status r \<in> {UNKNOWN, OK}")
      case False
      with Inr body show ?thesis by (auto split: if_splits)
    next
      case True
      then have p: "pending env a" using Inr by (simp add: pending_def)
      show ?thesis
      proof (cases "expired env d a")
        case True
        with p show ?thesis by (simp add: timesOutFrom_now)
      next
        case False
        with True Inr body
        have "loop env d (a + 1) (tr @ [Polled a, Slept (retryDelay env a)]) = Some y"
          by (simp add: expired_def Let_def)
        from IH [OF this] p False show ?thesis
          by (auto intro: timesOutFrom_later)
      qed
    qed
  qed
qed

text \<open>
  Claim C7. If every poll before attempt \<open>k\<close> was pending and in time, and the poll of
  attempt \<open>k\<close> returns a receipt whose status is not pending, then the resolver ends at
  that poll: with the receipt when the status is \<open>SUCCESS\<close>, with an error carrying the
  status otherwise. The poll of attempt \<open>k\<close> is the last event.
\<close>

theorem terminal_status_ends_polling:
  assumes "transactionvalidstart (txnId tx) = Some ts"
    and "\<forall>j<k. pending env j \<and> \<not> expired env (addN (toMs ts) (Finite 120000)) j"
    and "getReceiptAt env k = Inr r" and "status r \<notin> {UNKNOWN, OK}"
  shows "waitForReceipt toMs env tx =
         Some (if status r = SUCCESS then Inr r else Inl (HederaError (status r)),
               pollEvents env k @ [Polled k])"
  unfolding waitForReceipt_loop [OF assms(1)] waitLoop_prefix [OF assms(2)]
    waitLoop_terminal [OF assms(3,4)]
  by (simp add: pollEvents_def)

text \<open>
  Claim C7, witness: pending at the first poll, code 11 at the second.
\<close>

theorem terminal_status_ends_polling_witness:
  "waitForReceipt exampleToMs (examplePolls (OtherCode 11) 2000) exampleTransaction =
     Some (Inl (HederaError (OtherCode 11)),
           [Slept (Finite 1000), Polled 0, Slept (Finite 0), Polled 1])"
proof -
  let ?env = "examplePolls (OtherCode 11) 2000"
  let ?ts = "\<lparr>seconds = 0, nanos = 0\<rparr> :: Timestamp"
  have h: "transactionvalidstart (txnId exampleTransaction) = Some ?ts"
    by (simp add: exampleTransaction_def)
  have p: "\<forall>j<1. pending ?env j \<and>
                  \<not> expired ?env (addN (exampleToMs ?ts) (Finite 120000)) j"
    by (simp add: pending_def expired_def examplePolls_def exampleToMs_def retryDelay_def
        receiptRetryDelayMs_def subN_def pow2_def fl_half)
  have r: "getReceiptAt ?env 1 = Inr \<lparr>status = OtherCode 11, receipt_data = 0\<rparr>"
    by (simp add: examplePolls_def)
  have s: "status \<lparr>status = OtherCode 11, receipt_data = 0\<rparr> \<notin> {UNKNOWN, OK}" by simp
  show ?thesis
    using terminal_status_ends_polling [where toMs = exampleToMs, OF h p r s]
    by (simp add: pollEvents_def receiptInitialDelayMs_def retryDelay_def examplePolls_def
        receiptRetryDelayMs_def subN_def pow2_def fl_half)
qed

text \<open>
  Claim C3, as amended. The deadline is the valid start in milliseconds plus 120000,
  whatever the valid duration of the transaction is. While the status is pending the delay
  is \<open>Math.floor(500 * Math.random() * (2 ** attempt - 1))\<close> as JavaScript computes it
  (each product and the difference rounded to a number), and the resolver fails with the
  timeout error exactly when, at the first attempt where it happens, the time of the check
  plus that delay, again as a number, is greater than the deadline.
\<close>

theorem timeout_at_fixed_deadline:
  assumes "transactionvalidstart (txnId tx) = Some ts"
  shows "((\<exists>tr. waitForReceipt toMs env tx = Some (Inl ConsensusTimeout, tr)) \<longleftrightarrow>
          (\<exists>k. (\<forall>j<k. pending env j \<and> \<not> expired env (addN (toMs ts) (Finite 120000)) j) \<and>
               pending env k \<and> expired env (addN (toMs ts) (Finite 120000)) k)) \<and>
         (expired env (addN (toMs ts) (Finite 120000)) k \<longleftrightarrow>
            gtN (addN (fl (of_int (nowAt env k)))
                      (floorN (mulN (mulN (Finite 500) (fl (randomAt env k)))
                                    (subN (pow2 k) (Finite 1)))))
                (addN (toMs ts) (Finite 120000))) \<and>
         waitForReceipt toMs env (tx\<lparr>validDurationSeconds := secs\<rparr>) = waitForReceipt toMs env tx"
proof (intro conjI iffI)
  assume "\<exists>tr. waitForReceipt toMs env tx = Some (Inl ConsensusTimeout, tr)"
  then obtain tr where
    "waitLoop env (addN (toMs ts) (Finite 120000)) 0 [Slept (Finite receiptInitialDelayMs)] =
       Some (Inl ConsensusTimeout, tr)"
    unfolding waitForReceipt_loop [OF assms] by blast
  from waitLoop_timeout_only_if [OF this]
  show "\<exists>k. (\<forall>j<k. pending env j \<and> \<not> expired env (addN (toMs ts) (Finite 120000)) j) \<and>
               pending env k \<and> expired env (addN (toMs ts) (Finite 120000)) k"
    by (auto simp: timesOutFrom_def)
next
  assume "\<exists>k. (\<forall>j<k. pending env j \<and> \<not> expired env (addN (toMs ts) (Finite 120000)) j) \<and>
               pending env k \<and> expired env (addN (toMs ts) (Finite 120000)) k"
  then obtain k where k: "\<forall>j<k. pending env j \<and> \<not> expired env (addN (toMs ts) (Finite 120000)) j"
    "pending env k" "expired env (addN (toMs ts) (Finite 120000)) k" by blast
  show "\<exists>tr. waitForReceipt toMs env tx = Some (Inl ConsensusTimeout, tr)"
    unfolding waitForReceipt_loop [OF assms] waitLoop_prefix [OF k(1)] waitLoop_expire [OF k(2,3)]
    by blast
next
  show "waitForReceipt toMs env (tx\<lparr>validDurationSeconds := secs\<rparr>) = waitForReceipt toMs env tx"
    by (simp add: waitForReceipt_def)
qed (simp_all add: expired_def retryDelay_def receiptRetryDelayMs_def)

text \<open>
  Claim C3, witness: \<open>Math.random()\<close> returns the number written \<open>0.24\<close> and the
  second check is made 119881 ms after the valid start. The delay of attempt 1 is 120 (the
  exact product is below 120), the sum 120001 is greater than the deadline 120000, and the
  resolver times out.
\<close>

theorem timeout_at_fixed_deadline_witness:
  "retryDelay roundingPolls 1 = Finite 120 \<and>
   (\<exists>tr. waitForReceipt exampleToMs roundingPolls exampleTransaction =
           Some (Inl ConsensusTimeout, tr))"
proof -
  let ?env = "roundingPolls"
  let ?d = "addN (exampleToMs \<lparr>seconds = 0, nanos = 0\<rparr>) (Finite 120000)"
  have h: "transactionvalidstart (txnId exampleTransaction) = Some \<lparr>seconds = 0, nanos = 0\<rparr>"
    by (simp add: exampleTransaction_def)
  have d: "?d = Finite 120000" by (simp add: exampleToMs_def)
  have r0: "retryDelay ?env 0 = Finite 0"
    by (simp add: retryDelay_roundingPolls subN_def pow2_def)
  have r1: "retryDelay ?env 1 = Finite 120"
    by (simp add: retryDelay_roundingPolls subN_def pow2_def)
  have p: "\<And>j. pending ?env j" by (simp add: pending_def roundingPolls_def)
  have e0: "\<not> expired ?env ?d 0"
    unfolding d expired_def r0 by (simp add: roundingPolls_def)
  have e1: "expired ?env ?d 1"
    unfolding d expired_def r1 by (simp add: roundingPolls_def)
  have "\<exists>k. (\<forall>j<k. pending ?env j \<and> \<not> expired ?env ?d j) \<and>
            pending ?env k \<and> expired ?env ?d k"
    using p e0 e1 by (intro exI [of _ 1]) simp
  with timeout_at_fixed_deadline [where toMs = exampleToMs and env = ?env and k = 1 and secs = 5, OF h]
  have "\<exists>tr. waitForReceipt exampleToMs roundingPolls exampleTransaction =
           Some (Inl ConsensusTimeout, tr)" by blast
  with r1 show ?thesis by simp
qed

text \<open>
  Claim C3, counterexample to the claim as stated: the transaction is valid for 5 seconds
  and the first check is made 10 seconds after its valid start with a delay of 0, so that
  the time of the check plus the delay is greater than the valid start plus the valid
  duration; the resolver does not fail, it polls again and returns the receipt.
\<close>

theorem deadline_ignores_validity_window:
  "validDurationSeconds exampleTransaction = 5 \<and>
   gtN (addN (fl (of_int (nowAt (examplePolls SUCCESS 10000) 0)))
             (retryDelay (examplePolls SUCCESS 10000) 0))
       (addN (exampleToMs \<lparr>seconds = 0, nanos = 0\<rparr>)
             (mulN (Finite 1000) (Finite (of_int (validDurationSeconds exampleTransaction))))) \<and>
   waitForReceipt exampleToMs (examplePolls SUCCESS 10000) exampleTransaction =
     Some (Inr \<lparr>status = SUCCESS, receipt_data = 0\<rparr>,
           [Slept (Finite 1000), Polled 0, Slept (Finite 0), Polled 1])"
  by (simp add: exampleTransaction_def exampleToMs_def examplePolls_def retryDelay_def
      receiptRetryDelayMs_def receiptInitialDelayMs_def waitForReceipt_def waitLoop.simps Let_def
      subN_def pow2_def fl_half)

section \<open>Bytes and signatures\<close>

text \<open>
  Both ways of building a transaction give one that agrees with its envelope.
\<close>

lemma fromBytes_builtFrom:
  assumes "fromBytes codec bs = Inr tx"
  shows "builtFrom codec tx"
  using assms
  by (auto simp: fromBytes_def builtFrom_def new_Transaction_def Let_def
      split: sum.splits option.splits)

lemma new_Transaction_builtFrom:
  assumes "deserializeBody codec (bodybytes inner') = Inr body"
    and "nodeaccountid body = Some n" and "methodFromTxn body = Inr m"
    and "new_Transaction (fromProto codec n) inner' body m = Inr tx"
  shows "builtFrom codec tx"
  using assms
  by (auto simp: builtFrom_def new_Transaction_def split: option.splits)

text \<open>
  Claim C8. For a transaction that agrees with its own envelope, whose data case is one
  of those with a method, and whose envelope the codec decodes back from its encoding,
  \<open>fromBytes (toBytes tx)\<close> succeeds and gives the transaction back: node, transaction id
  and valid duration included.
\<close>

theorem fromBytes_toBytes:
  assumes "deserializeBinary codec (serializeBinary codec (inner tx)) = Inr (inner tx)"
    and "builtFrom codec tx"
  shows "fromBytes codec (toBytes codec tx) = Inr tx"
proof -
  from assms(2) obtain body n where
    b: "deserializeBody codec (bodybytes (inner tx)) = Inr body"
    and n: "nodeaccountid body = Some n" "fromProto codec n = node tx"
    and r: "transactionid body = Some (txnId tx)"
      "transactionvalidduration body = Some (validDurationSeconds tx)"
      "methodFromTxn body = Inr (tx_method tx)"
    by (auto simp: builtFrom_def split: sum.splits option.splits)
  show ?thesis
    unfolding fromBytes_def toBytes_def assms(1)
    using b n r by (simp add: new_Transaction_def del: methodFromTxn.simps)
qed

text \<open>
  Claim C8, witness.
\<close>

theorem fromBytes_toBytes_witness:
  "fromBytes exampleCodec (toBytes exampleCodec exampleTransaction) = Inr exampleTransaction"
proof -
  have rt: "deserializeBinary exampleCodec (serializeBinary exampleCodec (inner exampleTransaction)) =
            Inr (inner exampleTransaction)"
    by (simp add: exampleCodec_def exampleTransaction_def)
  have b: "builtFrom exampleCodec exampleTransaction"
    by (simp add: builtFrom_def exampleCodec_def exampleTransaction_def exampleBody_def)
  show ?thesis by (rule fromBytes_toBytes [OF rt b])
qed

text \<open>
  Claim C9. \<open>sign\<close> and \<open>signWith\<close> leave the body bytes, the node, the transaction
  id and the valid duration as they are, and add exactly one pair at the end of the
  signature pairs: the signature over the body bytes with the public key. When the signer
  fails, \<open>signWith\<close> fails with the signer's error.
\<close>

theorem signing_is_additive:
  "bodybytes (inner (sign key tx)) = bodybytes (inner tx) \<and>
   node (sign key tx) = node tx \<and> txnId (sign key tx) = txnId tx \<and>
   validDurationSeconds (sign key tx) = validDurationSeconds tx \<and>
   sigPairs (sign key tx) =
     sigPairs tx @ [\<lparr>pubkeyprefix = key_publicKey key,
                     ed25519 = key_sign key (bodybytes (inner tx))\<rparr>] \<and>
   (case signWith pk signer tx of
      Inl e \<Rightarrow> signer (bodybytes (inner tx)) = Inl e
    | Inr tx' \<Rightarrow>
        bodybytes (inner tx') = bodybytes (inner tx) \<and>
        node tx' = node tx \<and> txnId tx' = txnId tx \<and>
        validDurationSeconds tx' = validDurationSeconds tx \<and>
        (case signer (bodybytes (inner tx)) of
           Inl _ \<Rightarrow> False
         | Inr sg \<Rightarrow> sigPairs tx' = sigPairs tx @ [\<lparr>pubkeyprefix = pk, ed25519 = sg\<rparr>]))"
  by (simp add: sign_def signWith_def addSignature_def sigPairs_def Let_def
      split: sum.splits option.splits)

text \<open>
  Claim C9, witness.
\<close>

theorem signing_is_additive_witness:
  "sigPairs (sign exampleKey exampleTransaction) = [\<lparr>pubkeyprefix = [9], ed25519 = [1]\<rparr>] \<and>
   bodybytes (inner (sign exampleKey exampleTransaction)) = [1]"
  using signing_is_additive
          [where key = exampleKey and tx = exampleTransaction and pk = "[9]" and signer = Inr]
  by (simp add: sigPairs_def exampleTransaction_def exampleKey_def)

section \<open>The message handed out by toProto\<close>

text \<open>
  Reading an object gives the same in every store that extends the one it was read in. A
  clone reads as the original, and all its objects are new.
\<close>

lemma extends_refl: "extends h h"
  by (simp add: extends_def)

lemma extends_length:
  assumes "extends h h'"
  shows "length h \<le> length h'"
proof -
  have "length (take (length h) h') = length h" using assms by (simp add: extends_def)
  then show ?thesis by simp
qed

lemma extends_cell:
  assumes "extends h h'" "r < length h"
  shows "cells h' r = cells h r"
proof -
  have "h' ! r = take (length h) h' ! r" using assms(2) by simp
  also have "\<dots> = h ! r" using assms(1) by (simp add: extends_def)
  finally show ?thesis
    using assms(2) extends_length [OF assms(1)] by (simp add: cells_def at_index_def)
qed

lemma extends_trans:
  assumes "extends h h1" "extends h1 h2"
  shows "extends h h2"
proof -
  have "take (length h) h2 = take (length h) (take (length h1) h2)"
    using extends_length [OF assms(1)] by (simp add: min_def)
  also have "\<dots> = h" using assms by (simp add: extends_def)
  finally show ?thesis by (simp add: extends_def)
qed

lemma cells_Some_less: "cells h r = Some ob \<Longrightarrow> r < length h"
  by (simp add: cells_def at_index_def split: if_splits)

lemma extends_cell_Some:
  assumes "extends h h'" "cells h r = Some ob"
  shows "cells h' r = Some ob"
  using extends_cell [OF assms(1) cells_Some_less [OF assms(2)]] assms(2) by simp

lemma alloc_extends:
  assumes "alloc h ob = (r, h')"
  shows "extends h h'" "r = length h" "cells h' r = Some ob" "length h' = Suc (length h)"
  using assms by (auto simp: alloc_def extends_def cells_def at_index_def)

lemma readBytes_extends:
  assumes "extends h h'" "readBytes h r = Some b"
  shows "readBytes h' r = Some b"
proof -
  from assms(2) have "cells h r = Some (BytesObj b)"
    by (auto simp: readBytes_def split: option.splits obj.splits)
  from extends_cell_Some [OF assms(1) this] show ?thesis by (simp add: readBytes_def)
qed

lemma readPair_extends:
  assumes "extends h h'" "readPair h r = Some v"
  shows "readPair h' r = Some v"
proof -
  from assms(2) obtain p s pb sb where c: "cells h r = Some (PairObj p s)"
    and b: "readBytes h p = Some pb" "readBytes h s = Some sb"
    and v: "v = \<lparr>pubkeyprefix = pb, ed25519 = sb\<rparr>"
    by (auto simp: readPair_def split: option.splits obj.splits)
  from extends_cell_Some [OF assms(1) c] b v readBytes_extends [OF assms(1)]
  show ?thesis by (simp add: readPair_def)
qed

lemma those_map_mono:
  assumes "\<And>r v. f r = Some v \<Longrightarrow> g r = Some v" "those (map f rs) = Some vs"
  shows "those (map g rs) = Some vs"
  using assms(2)
proof (induction rs arbitrary: vs)
  case Nil
  then show ?case by simp
next
  case (Cons r rs)
  then show ?case by (auto split: option.splits dest: assms(1))
qed

lemma readSigMap_extends:
  assumes "extends h h'" "readSigMap h r = Some vs"
  shows "readSigMap h' r = Some vs"
proof -
  from assms(2) obtain ps where c: "cells h r = Some (SigMapObj ps)"
    and t: "those (map (readPair h) ps) = Some vs"
    by (auto simp: readSigMap_def split: option.splits obj.splits)
  have "those (map (readPair h') ps) = Some vs"
    by (rule those_map_mono [OF readPair_extends [OF assms(1)] t])
  with extends_cell_Some [OF assms(1) c] show ?thesis by (simp add: readSigMap_def)
qed

lemma readEnvelope_extends:
  assumes "extends h h'" "readEnvelope h r = Some m"
  shows "readEnvelope h' r = Some m"
proof -
  from assms(2) obtain b mr where c: "cells h r = Some (EnvelopeObj b mr)"
    by (auto simp: readEnvelope_def split: option.splits obj.splits)
  from assms(2) c extends_cell_Some [OF assms(1) c]
    readBytes_extends [OF assms(1)] readSigMap_extends [OF assms(1)]
  show ?thesis
    by (auto simp: readEnvelope_def split: option.splits)
qed

lemma fpPair_cong:
  assumes "cells h' r = cells h r"
  shows "fpPair h' r = fpPair h r"
  using assms by (simp add: fpPair_def)

lemma cloneBytes_copy:
  assumes "readBytes h r = Some b"
  obtains r' h' where "cloneBytes h r = Some (r', h')" "extends h h'"
    "readBytes h' r' = Some b" "length h \<le> r'" "r' < length h'"
proof -
  from assms have c: "cells h r = Some (BytesObj b)"
    by (auto simp: readBytes_def split: option.splits obj.splits)
  obtain r' h' where a: "alloc h (BytesObj b) = (r', h')" by (cases "alloc h (BytesObj b)")
  note e = alloc_extends [OF a]
  show ?thesis
  proof (rule that [of r' h'])
    show "cloneBytes h r = Some (r', h')" using c a by (simp add: cloneBytes_def)
    show "extends h h'" by (rule e(1))
    show "readBytes h' r' = Some b" using e(3) by (simp add: readBytes_def)
    show "length h \<le> r'" "r' < length h'" using e(2,4) by simp_all
  qed
qed

lemma clonePair_copy:
  assumes "readPair h r = Some v"
  obtains r' h' where "clonePair h r = Some (r', h')" "extends h h'"
    "readPair h' r' = Some v" "r' < length h'" "fpPair h' r' \<subseteq> {length h..<length h'}"
proof -
  from assms obtain p s pb sb where c: "cells h r = Some (PairObj p s)"
    and b: "readBytes h p = Some pb" "readBytes h s = Some sb"
    and v: "v = \<lparr>pubkeyprefix = pb, ed25519 = sb\<rparr>"
    by (auto simp: readPair_def split: option.splits obj.splits)
  obtain p' h1 where 1: "cloneBytes h p = Some (p', h1)" "extends h h1"
    "readBytes h1 p' = Some pb" "length h \<le> p'" "p' < length h1"
    by (rule cloneBytes_copy [OF b(1)])
  have "readBytes h1 s = Some sb" by (rule readBytes_extends [OF 1(2) b(2)])
  then obtain s' h2 where 2: "cloneBytes h1 s = Some (s', h2)" "extends h1 h2"
    "readBytes h2 s' = Some sb" "length h1 \<le> s'" "s' < length h2"
    by (rule cloneBytes_copy)
  obtain r' h' where a: "alloc h2 (PairObj p' s') = (r', h')"
    by (cases "alloc h2 (PairObj p' s')")
  note e = alloc_extends [OF a]
  have f: "length h \<le> length h1" "length h1 \<le> length h2"
    using 1(2) 2(2) by (simp_all add: extends_length)
  have rp: "readBytes h' p' = Some pb"
    by (rule readBytes_extends [OF e(1) readBytes_extends [OF 2(2) 1(3)]])
  have rs: "readBytes h' s' = Some sb"
    by (rule readBytes_extends [OF e(1) 2(3)])
  show ?thesis
  proof (rule that [of r' h'])
    show "clonePair h r = Some (r', h')" using c 1(1) 2(1) a by (simp add: clonePair_def)
    show "extends h h'" by (rule extends_trans [OF extends_trans [OF 1(2) 2(2)] e(1)])
    show "readPair h' r' = Some v" using e(3) rp rs v by (simp add: readPair_def)
    show "r' < length h'" using e(2,4) by simp
    show "fpPair h' r' \<subseteq> {length h..<length h'}"
      using e(2,3,4) f 1(4,5) 2(4,5) by (auto simp: fpPair_def)
  qed
qed

lemma clonePairs_copy:
  assumes "those (map (readPair h) rs) = Some vs"
  obtains rs' h' where "clonePairs h rs = Some (rs', h')" "extends h h'"
    "those (map (readPair h') rs') = Some vs"
    "\<Union> (set (map (fpPair h') rs')) \<subseteq> {length h..<length h'}"
  using assms
proof (induction rs arbitrary: h vs thesis)
  case Nil
  show ?case
    using Nil.prems(1) [of "[]" h] Nil.prems(2) by (simp add: extends_refl)
next
  case (Cons r rs)
  from Cons.prems(2) obtain v vs' where v: "readPair h r = Some v"
    and vs': "those (map (readPair h) rs) = Some vs'" and vs: "vs = v # vs'"
    by (auto split: option.splits)
  obtain r' h1 where 1: "clonePair h r = Some (r', h1)" "extends h h1"
    "readPair h1 r' = Some v" "r' < length h1" "fpPair h1 r' \<subseteq> {length h..<length h1}"
    by (rule clonePair_copy [OF v])
  have "those (map (readPair h1) rs) = Some vs'"
    by (rule those_map_mono [OF readPair_extends [OF 1(2)] vs'])
  then obtain rs' h2 where 2: "clonePairs h1 rs = Some (rs', h2)" "extends h1 h2"
    "those (map (readPair h2) rs') = Some vs'"
    "\<Union> (set (map (fpPair h2) rs')) \<subseteq> {length h1..<length h2}"
    using Cons.IH by blast
  have f: "length h \<le> length h1" "length h1 \<le> length h2"
    using 1(2) 2(2) by (simp_all add: extends_length)
  have r2: "readPair h2 r' = Some v" by (rule readPair_extends [OF 2(2) 1(3)])
  have "fpPair h2 r' = fpPair h1 r'"
    by (rule fpPair_cong) (rule extends_cell [OF 2(2) 1(4)])
  with 1(5) f have fp: "fpPair h2 r' \<subseteq> {length h..<length h2}" by auto
  show ?case
  proof (rule Cons.prems(1) [of "r' # rs'" h2])
    show "clonePairs h (r # rs) = Some (r' # rs', h2)" using 1(1) 2(1) by simp
    show "extends h h2" by (rule extends_trans [OF 1(2) 2(2)])
    show "those (map (readPair h2) (r' # rs')) = Some vs" using r2 2(3) vs by simp
    show "\<Union> (set (map (fpPair h2) (r' # rs'))) \<subseteq> {length h..<length h2}"
      using fp 2(4) f by auto
  qed
qed

lemma fpSigMap_extends:
  assumes "extends h h'" "fpSigMap h r \<subseteq> {..<length h}"
  shows "fpSigMap h' r = fpSigMap h r"
proof -
  have r: "cells h' r = cells h r"
    using assms by (intro extends_cell) (auto simp: fpSigMap_def)
  show ?thesis
  proof (cases "cells h r")
    case None
    with r show ?thesis by (simp add: fpSigMap_def)
  next
    case (Some ob)
    show ?thesis
    proof (cases ob)
      case (SigMapObj ps)
      have "\<forall>q\<in>set ps. fpPair h' q = fpPair h q"
      proof
        fix q assume q: "q \<in> set ps"
        have "q \<in> fpSigMap h r"
          using q Some SigMapObj by (auto simp: fpSigMap_def fpPair_def)
        with assms(2) have "q < length h" by auto
        then show "fpPair h' q = fpPair h q"
          by (intro fpPair_cong extends_cell [OF assms(1)])
      qed
      with r Some SigMapObj show ?thesis by (simp add: fpSigMap_def)
    qed (use r Some in \<open>simp_all add: fpSigMap_def\<close>)
  qed
qed

lemma cloneSigMap_copy:
  assumes "readSigMap h r = Some vs"
  obtains r' h' where "cloneSigMap h r = Some (r', h')" "extends h h'"
    "readSigMap h' r' = Some vs" "fpSigMap h' r' \<subseteq> {length h..<length h'}"
proof -
  from assms obtain ps where c: "cells h r = Some (SigMapObj ps)"
    and t: "those (map (readPair h) ps) = Some vs"
    by (auto simp: readSigMap_def split: option.splits obj.splits)
  obtain ps' h1 where 1: "clonePairs h ps = Some (ps', h1)" "extends h h1"
    "those (map (readPair h1) ps') = Some vs"
    "\<Union> (set (map (fpPair h1) ps')) \<subseteq> {length h..<length h1}"
    by (rule clonePairs_copy [OF t])
  obtain r' h' where a: "alloc h1 (SigMapObj ps') = (r', h')"
    by (cases "alloc h1 (SigMapObj ps')")
  note e = alloc_extends [OF a]
  have f: "length h \<le> length h1" using 1(2) by (rule extends_length)
  have fp: "\<forall>q\<in>set ps'. fpPair h' q = fpPair h1 q"
  proof
    fix q assume q: "q \<in> set ps'"
    have "q \<in> fpPair h1 q" by (simp add: fpPair_def)
    with q 1(4) have "q < length h1" by auto
    then show "fpPair h' q = fpPair h1 q"
      by (intro fpPair_cong extends_cell [OF e(1)])
  qed
  show ?thesis
  proof (rule that [of r' h'])
    show "cloneSigMap h r = Some (r', h')" using c 1(1) a by (simp add: cloneSigMap_def)
    show "extends h h'" by (rule extends_trans [OF 1(2) e(1)])
    show "readSigMap h' r' = Some vs"
      using e(3) those_map_mono [OF readPair_extends [OF e(1)] 1(3)] by (simp add: readSigMap_def)
    show "fpSigMap h' r' \<subseteq> {length h..<length h'}"
      using e(2,3,4) f 1(4) fp by (auto simp: fpSigMap_def)
  qed
qed

lemma cloneMessage_copy:
  assumes "readEnvelope h r = Some m"
  obtains r' h' where "cloneMessage h r = Some (r', h')" "extends h h'"
    "readEnvelope h' r' = Some m" "fpEnvelope h' r' \<subseteq> {length h..<length h'}"
proof -
  from assms obtain b mo bb where c: "cells h r = Some (EnvelopeObj b mo)"
    and rb: "readBytes h b = Some bb"
    by (auto simp: readEnvelope_def split: option.splits obj.splits)
  obtain b' h1 where 1: "cloneBytes h b = Some (b', h1)" "extends h h1"
    "readBytes h1 b' = Some bb" "length h \<le> b'" "b' < length h1"
    by (rule cloneBytes_copy [OF rb])
  have f1: "length h \<le> length h1" using 1(2) by (rule extends_length)
  show ?thesis
  proof (cases mo)
    case None
    with assms c rb have m: "m = \<lparr>bodybytes = bb, sigmap = None\<rparr>"
      by (simp add: readEnvelope_def)
    obtain r' h' where a: "alloc h1 (EnvelopeObj b' None) = (r', h')"
      by (cases "alloc h1 (EnvelopeObj b' None)")
    note e = alloc_extends [OF a]
    show ?thesis
    proof (rule that [of r' h'])
      show "cloneMessage h r = Some (r', h')" using c None 1(1) a by (simp add: cloneMessage_def)
      show "extends h h'" by (rule extends_trans [OF 1(2) e(1)])
      show "readEnvelope h' r' = Some m"
        using e(3) readBytes_extends [OF e(1) 1(3)] m by (simp add: readEnvelope_def)
      show "fpEnvelope h' r' \<subseteq> {length h..<length h'}"
        using e(2,3,4) f1 1(4,5) by (auto simp: fpEnvelope_def)
    qed
  next
    case (Some mr)
    with assms c rb obtain ps where rs: "readSigMap h mr = Some ps"
      and m: "m = \<lparr>bodybytes = bb, sigmap = Some ps\<rparr>"
      by (auto simp: readEnvelope_def split: option.splits)
    have "readSigMap h1 mr = Some ps" by (rule readSigMap_extends [OF 1(2) rs])
    then obtain mr' h2 where 2: "cloneSigMap h1 mr = Some (mr', h2)" "extends h1 h2"
      "readSigMap h2 mr' = Some ps" "fpSigMap h2 mr' \<subseteq> {length h1..<length h2}"
      by (rule cloneSigMap_copy)
    have f2: "length h1 \<le> length h2" using 2(2) by (rule extends_length)
    obtain r' h' where a: "alloc h2 (EnvelopeObj b' (Some mr')) = (r', h')"
      by (cases "alloc h2 (EnvelopeObj b' (Some mr'))")
    note e = alloc_extends [OF a]
    have fp: "fpSigMap h' mr' = fpSigMap h2 mr'"
      using 2(4) by (intro fpSigMap_extends [OF e(1)]) auto
    show ?thesis
    proof (rule that [of r' h'])
      show "cloneMessage h r = Some (r', h')"
        using c Some 1(1) 2(1) a by (simp add: cloneMessage_def)
      show "extends h h'"
        by (rule extends_trans [OF extends_trans [OF 1(2) 2(2)] e(1)])
      show "readEnvelope h' r' = Some m"
        using e(3) readBytes_extends [OF e(1) readBytes_extends [OF 2(2) 1(3)]]
          readSigMap_extends [OF e(1) 2(3)] m
        by (simp add: readEnvelope_def)
      show "fpEnvelope h' r' \<subseteq> {length h..<length h'}"
        using e(2,3,4) f1 f2 1(4,5) 2(4) fp by (auto simp: fpEnvelope_def)
    qed
  qed
qed

text \<open>
  Claim C10. When the transaction's envelope is complete in the store, \<open>toProto\<close>
  returns a message that reads as the envelope and consists of new objects only. Hence in
  every later store that still has the objects of the store before the call, whatever was
  written to the returned message and to other new objects, the envelope reads as before,
  \<open>toBytes\<close> gives the same bytes and \<open>toProto\<close> again returns a message that
  reads as the envelope.
\<close>

theorem toProto_independent_copy:
  assumes "readEnvelope h (this_inner this) = Some m"
  shows "\<exists>r h1. toProto h this = Some (r, h1) \<and>
           readEnvelope h1 r = Some m \<and>
           fpEnvelope h1 r \<inter> {..<length h} = {} \<and>
           (\<forall>h2. extends h h2 \<longrightarrow>
                  readEnvelope h2 (this_inner this) = Some m \<and>
                  toBytesAt codec h2 this = toBytesAt codec h this \<and>
                  (\<exists>r' h3. toProto h2 this = Some (r', h3) \<and> readEnvelope h3 r' = Some m))"
proof -
  obtain r h1 where 1: "cloneMessage h (this_inner this) = Some (r, h1)" "extends h h1"
    "readEnvelope h1 r = Some m" "fpEnvelope h1 r \<subseteq> {length h..<length h1}"
    by (rule cloneMessage_copy [OF assms])
  have later: "readEnvelope h2 (this_inner this) = Some m \<and>
               toBytesAt codec h2 this = toBytesAt codec h this \<and>
               (\<exists>r' h3. toProto h2 this = Some (r', h3) \<and> readEnvelope h3 r' = Some m)"
    if h2: "extends h h2" for h2
  proof -
    have r2: "readEnvelope h2 (this_inner this) = Some m"
      by (rule readEnvelope_extends [OF h2 assms])
    obtain r' h3 where "cloneMessage h2 (this_inner this) = Some (r', h3)"
      "readEnvelope h3 r' = Some m"
      by (rule cloneMessage_copy [OF r2])
    with r2 assms show ?thesis by (simp add: toBytesAt_def toProto_def)
  qed
  have "fpEnvelope h1 r \<inter> {..<length h} = {}" using 1(4) by auto
  with 1(1,3) later show ?thesis by (auto simp: toProto_def)
qed

lemmas heap_defs =
  exampleHeap_def exampleObject_def toProto_def cloneMessage_def cloneSigMap_def clonePair_def
  cloneBytes_def alloc_def cells_def at_index_def overwritten_def

text \<open>
  Claim C10, witness: the body bytes of the returned message are replaced and its
  signature map is cleared; the bytes of the transaction stay.
\<close>

theorem toProto_independent_copy_witness:
  "(case toProto exampleHeap exampleObject of
      None \<Rightarrow> False
    | Some (r, h1) \<Rightarrow>
        readEnvelope h1 r = readEnvelope exampleHeap (this_inner exampleObject) \<and>
        readEnvelope (overwritten h1 r) r = Some \<lparr>bodybytes = [255], sigmap = None\<rparr> \<and>
        toBytesAt exampleCodec (overwritten h1 r) exampleObject =
          toBytesAt exampleCodec exampleHeap exampleObject)"
proof -
  let ?m = "\<lparr>bodybytes = [1], sigmap = Some [\<lparr>pubkeyprefix = [9], ed25519 = [7]\<rparr>]\<rparr>"
  define h1 where "h1 = snd (the (toProto exampleHeap exampleObject))"
  have tp: "toProto exampleHeap exampleObject = Some (11, h1)"
    by (simp add: h1_def heap_defs)
  have m0: "readEnvelope exampleHeap (this_inner exampleObject) = Some ?m"
    by (simp add: heap_defs readEnvelope_def readSigMap_def readPair_def readBytes_def)
  have e2: "extends exampleHeap (overwritten h1 11)"
    by (simp add: extends_def h1_def heap_defs)
  have w: "readEnvelope (overwritten h1 11) 11 = Some \<lparr>bodybytes = [255], sigmap = None\<rparr>"
    by (simp add: h1_def heap_defs readEnvelope_def readBytes_def)
  from toProto_independent_copy [OF m0, of exampleCodec] tp e2
  have "readEnvelope h1 11 = Some ?m \<and>
        toBytesAt exampleCodec (overwritten h1 11) exampleObject =
          toBytesAt exampleCodec exampleHeap exampleObject"
    by auto
  with tp m0 w show ?thesis by simp
qed

end
